theory Spec2Isabelle
  imports Main
begin

section \<open>Argus: the websocket handler and the filesystem event handler\<close>

text \<open>
  A shallow embedding of \<^verbatim>\<open>argus/handler.py\<close>. The two module-level dictionaries
  \<^verbatim>\<open>active_handlers\<close> and \<^verbatim>\<open>active_observers\<close>, the \<^verbatim>\<open>Observer\<close> objects and the
  \<^verbatim>\<open>ArgusWebSocketHandler\<close> objects form the state \<open>world\<close>, which every method takes
  and returns. A method that raises returns \<open>Raised e w\<close>, where \<open>w\<close> is the state
  at the moment of the \<^verbatim>\<open>raise\<close> (Python keeps the mutations made before it).
  Every method runs to its end before the next one starts: the interleaving of the
  observer's thread with the I/O loop inside one method is not part of this model.
\<close>

subsection \<open>Option resolution\<close>

definition default_options :: "string list" where
  "default_options =
     [''CRfile'', ''CRdir'', ''MDfile'', ''MDdir'',
      ''MVfile'', ''MVdir'', ''DLfile'', ''DLdir'']"

text \<open>
  \<^verbatim>\<open>list(set(a) & set(b))\<close> and \<^verbatim>\<open>list(set(a) - set(b))\<close> yield the elements of the set
  once each, in an order Python does not specify. The model enumerates them in the
  order of \<open>default_options\<close>; the program only tests the result for membership
  (\<^verbatim>\<open>'CRdir' in self.options\<close>) and for emptiness (\<^verbatim>\<open>options == []\<close>).
\<close>

definition define_options :: "string list \<Rightarrow> string list \<Rightarrow> string list" where
  "define_options enable disable =
     (if disable = enable \<and> enable = [] then default_options
      else if ''all'' \<in> set disable then
        filter (\<lambda>t. t \<in> set enable) default_options
      else
        filter (\<lambda>t. t \<notin> set disable) default_options)"

subsection \<open>Data\<close>

text \<open>
  The exceptions: those the handler can raise itself, \<^verbatim>\<open>re.error\<close>, and any other
  exception by the name of its class (the library \<^verbatim>\<open>re\<close> may raise one).
\<close>

datatype error = KeyError | AttributeError | WebSocketClosedError | re_error | Exception string

datatype json = JStr string | JBool bool

text \<open>
  What \<^verbatim>\<open>write_message\<close> sends: a plain text, or the JSON text \<^verbatim>\<open>dumps(d)\<close> of a
  dictionary \<open>d\<close>, kept as the list of its items in the order the source writes them.
\<close>

datatype message = Text string | Dumps "(string \<times> json) list"

text \<open>The events of watchdog: the three plain kinds, and a move with its destination.\<close>

datatype fs_event =
    Created (is_directory: bool) (src_path: string)
  | Modified (is_directory: bool) (src_path: string)
  | Deleted (is_directory: bool) (src_path: string)
  | Moved (is_directory: bool) (src_path: string) (dest_path: string)

text \<open>An \<^verbatim>\<open>Argus\<close> object; a socket is named by the identity of its handler object.\<close>

record Argus =
  websockets :: "nat list"
  root :: string
  options :: "string list"

datatype status = Unstarted | Running | Stopped

text \<open>An \<^verbatim>\<open>Observer\<close>: the paths scheduled on it, and whether its thread runs.\<close>

record Observer =
  scheduled :: "string list"
  status :: status

text \<open>
  An \<^verbatim>\<open>ArgusWebSocketHandler\<close> object: the three fields of \<^verbatim>\<open>__init__\<close> that the
  handler uses, and of tornado's part of the object \<open>ws_connection\<close> (false once the
  connection is closed: \<^verbatim>\<open>write_message\<close> then raises \<^verbatim>\<open>WebSocketClosedError\<close>),
  \<open>on_close_called\<close> (tornado calls \<^verbatim>\<open>on_close\<close> once) and the messages \<open>sent\<close> to
  the peer so far.
\<close>

record ArgusWebSocketHandler =
  started_observer :: bool
  observer :: "nat option"
  path :: "string option"
  ws_connection :: bool
  on_close_called :: bool
  sent :: "message list"

record world =
  active_handlers :: "string \<rightharpoonup> Argus"
  active_observers :: "string \<rightharpoonup> nat"
  observers :: "Observer list"
  sockets :: "nat \<rightharpoonup> ArgusWebSocketHandler"

datatype outcome = Done world | Raised error world

fun state_of :: "outcome \<Rightarrow> world" where
  "state_of (Done w) = w"
| "state_of (Raised e w) = w"

text \<open>What the handler reads of its environment.\<close>

record os =
  ARGUS_ROOT :: string
  path_exists :: "string \<Rightarrow> bool"
  observer_can_start :: bool

subsection \<open>Library functions the handler calls\<close>

text \<open>\<^verbatim>\<open>os.path.join\<close> of two components (posixpath).\<close>

definition os_path_join :: "string \<Rightarrow> string \<Rightarrow> string" where
  "os_path_join a b =
     (if b \<noteq> [] \<and> hd b = CHR ''/'' then b
      else if a = [] \<or> last a = CHR ''/'' then a @ b
      else a @ ''/'' @ b)"

text \<open>
  \<^verbatim>\<open>re.sub(pattern, repl, string)\<close> reads \<open>pattern\<close> as a regular expression. The model
  works out two kinds of pattern itself.

  In a pattern of ordinary characters and dots, an ordinary character matches itself
  and a dot any character but the newline; \<^verbatim>\<open>re.sub\<close> replaces every match, leftmost
  first and not overlapping (for the empty pattern: before every character and at
  the end): this is \<open>replace_all\<close>. A replacement without a backslash is put in as it
  is.

  A pattern of ordinary characters, dots and exactly one opening parenthesis does not
  compile: \<^verbatim>\<open>re.sub\<close> raises \<^verbatim>\<open>re.error\<close>.

  For every other pattern the answer of the library, its result or the exception it
  raises, is the parameter \<open>re\<close>.
\<close>

type_synonym regex_library = "string \<Rightarrow> string \<Rightarrow> string \<Rightarrow> error + string"

definition special_characters :: "char list" where
  "special_characters = [CHR ''.'', CHR ''^'', CHR ''$'', CHR ''*'', CHR ''+'', CHR ''?'',
     CHR ''{'', CHR ''}'', CHR ''['', CHR '']'', CHR 0x5C, CHR ''|'', CHR ''('', CHR '')'']"

definition literal :: "string \<Rightarrow> bool" where
  "literal pattern = list_all (\<lambda>c. c \<notin> set special_characters) pattern"

definition dotted :: "string \<Rightarrow> bool" where
  "dotted pattern = list_all (\<lambda>c. c = CHR ''.'' \<or> c \<notin> set special_characters) pattern"

definition unclosed_group :: "string \<Rightarrow> bool" where
  "unclosed_group pattern \<longleftrightarrow>
     count_list pattern (CHR ''('') = 1 \<and>
     list_all (\<lambda>c. c = CHR ''('' \<or> c = CHR ''.'' \<or> c \<notin> set special_characters) pattern"

definition matches :: "string \<Rightarrow> string \<Rightarrow> bool" where
  "matches pattern t =
     list_all2 (\<lambda>p c. if p = CHR ''.'' then c \<noteq> CHR 0x0A else p = c) pattern t"

function replace_all :: "string \<Rightarrow> string \<Rightarrow> string \<Rightarrow> string" where
  "replace_all pattern repl s =
     (if pattern \<noteq> [] \<and> matches pattern (take (length pattern) s) then
        repl @ replace_all pattern repl (drop (length pattern) s)
      else (case s of
              [] \<Rightarrow> (if pattern = [] then repl else [])
            | c # cs \<Rightarrow> (if pattern = [] then repl @ [c] else [c]) @ replace_all pattern repl cs))"
  by pat_completeness auto
termination
proof (relation "measure (\<lambda>(pattern, repl, s). length s)")
  fix pattern repl s :: string
  assume a: "pattern \<noteq> [] \<and> matches pattern (take (length pattern) s)"
  then have "list_all2 (\<lambda>p c. if p = CHR ''.'' then c \<noteq> CHR 0x0A else p = c)
      pattern (take (length pattern) s)"
    by (simp add: matches_def)
  then have "length pattern = length (take (length pattern) s)"
    by (rule list_all2_lengthD)
  with a have "s \<noteq> []" and "0 < length pattern" by auto
  then show "((pattern, repl, drop (length pattern) s), (pattern, repl, s))
      \<in> measure (\<lambda>(pattern, repl, s). length s)" by simp
qed auto

declare replace_all.simps [simp del]

definition sub :: "regex_library \<Rightarrow> string \<Rightarrow> string \<Rightarrow> string \<Rightarrow> error + string" where
  "sub re pattern repl s =
     (if dotted pattern \<and> CHR 0x5C \<notin> set repl then Inr (replace_all pattern repl s)
      else if unclosed_group pattern then Inl re_error
      else re pattern repl s)"

text \<open>
  \<^verbatim>\<open>WebSocketHandler.write_message\<close> and \<^verbatim>\<open>close\<close> of tornado. A socket with no object
  behind it does not occur in Python; the model treats it as a closed one.
\<close>

definition write_message :: "nat \<Rightarrow> message \<Rightarrow> world \<Rightarrow> outcome" where
  "write_message self message w =
     (case sockets w self of
        None \<Rightarrow> Raised WebSocketClosedError w
      | Some ss \<Rightarrow>
          if ws_connection ss then
            Done (w\<lparr>sockets := (sockets w)(self \<mapsto> ss\<lparr>sent := sent ss @ [message]\<rparr>)\<rparr>)
          else Raised WebSocketClosedError w)"

definition update_socket ::
  "nat \<Rightarrow> (ArgusWebSocketHandler \<Rightarrow> ArgusWebSocketHandler) \<Rightarrow> world \<Rightarrow> world" where
  "update_socket self f w =
     (case sockets w self of
        None \<Rightarrow> w
      | Some ss \<Rightarrow> w\<lparr>sockets := (sockets w)(self \<mapsto> f ss)\<rparr>)"

definition close :: "nat \<Rightarrow> world \<Rightarrow> world" where
  "close self w = update_socket self (\<lambda>ss. ss\<lparr>ws_connection := False\<rparr>) w"

text \<open>\<^verbatim>\<open>Observer()\<close>, \<^verbatim>\<open>schedule\<close>, \<^verbatim>\<open>start\<close> and \<^verbatim>\<open>stop\<close> of watchdog.\<close>

definition new_Observer :: "world \<Rightarrow> nat \<times> world" where
  "new_Observer w =
     (length (observers w),
      w\<lparr>observers := observers w @ [\<lparr>scheduled = [], status = Unstarted\<rparr>]\<rparr>)"

definition update_observer :: "nat \<Rightarrow> (Observer \<Rightarrow> Observer) \<Rightarrow> world \<Rightarrow> world" where
  "update_observer ob f w =
     (if ob < length (observers w)
      then w\<lparr>observers := (observers w)[ob := f (observers w ! ob)]\<rparr>
      else w)"

definition schedule :: "nat \<Rightarrow> string \<Rightarrow> world \<Rightarrow> world" where
  "schedule ob p w = update_observer ob (\<lambda>x. x\<lparr>scheduled := scheduled x @ [p]\<rparr>) w"

definition start :: "nat \<Rightarrow> world \<Rightarrow> world" where
  "start ob w = update_observer ob (\<lambda>x. x\<lparr>status := Running\<rparr>) w"

definition stop :: "nat \<Rightarrow> world \<Rightarrow> world" where
  "stop ob w = update_observer ob (\<lambda>x. x\<lparr>status := Stopped\<rparr>) w"

subsection \<open>The event handler \<^verbatim>\<open>Argus\<close>\<close>

text \<open>\<^verbatim>\<open>write_msg\<close>: the loop over \<^verbatim>\<open>self.websockets\<close>; a raise leaves the loop.\<close>

fun write_all :: "nat list \<Rightarrow> message \<Rightarrow> world \<Rightarrow> outcome" where
  "write_all [] message w = Done w"
| "write_all (wbsocket # rest) message w =
     (case write_message wbsocket message w of
        Raised e w' \<Rightarrow> Raised e w'
      | Done w' \<Rightarrow> write_all rest message w')"

definition write_msg :: "Argus \<Rightarrow> message \<Rightarrow> world \<Rightarrow> outcome" where
  "write_msg self message w = write_all (websockets self) message w"

definition on_created :: "regex_library \<Rightarrow> Argus \<Rightarrow> fs_event \<Rightarrow> world \<Rightarrow> outcome" where
  "on_created re self event w =
     (if (is_directory event \<and> ''CRdir'' \<in> set (options self)) \<or>
         (\<not> is_directory event \<and> ''CRfile'' \<in> set (options self))
      then
        (case sub re (root self) '''' (src_path event) of
           Inl e \<Rightarrow> Raised e w
         | Inr src \<Rightarrow>
             write_msg self
               (Dumps [(''event_type'', JStr ''created''),
                       (''is_directory'', JBool (is_directory event)),
                       (''src_path'', JStr src)]) w)
      else Done w)"

definition on_modified :: "regex_library \<Rightarrow> Argus \<Rightarrow> fs_event \<Rightarrow> world \<Rightarrow> outcome" where
  "on_modified re self event w =
     (if (is_directory event \<and> ''MDdir'' \<in> set (options self)) \<or>
         (\<not> is_directory event \<and> ''MDfile'' \<in> set (options self))
      then
        (case sub re (root self) '''' (src_path event) of
           Inl e \<Rightarrow> Raised e w
         | Inr src \<Rightarrow>
             write_msg self
               (Dumps [(''event_type'', JStr ''modified''),
                       (''is_directory'', JBool (is_directory event)),
                       (''src_path'', JStr src)]) w)
      else Done w)"

definition on_deleted :: "regex_library \<Rightarrow> Argus \<Rightarrow> fs_event \<Rightarrow> world \<Rightarrow> outcome" where
  "on_deleted re self event w =
     (if (is_directory event \<and> ''DLdir'' \<in> set (options self)) \<or>
         (\<not> is_directory event \<and> ''DLfile'' \<in> set (options self))
      then
        (case sub re (root self) '''' (src_path event) of
           Inl e \<Rightarrow> Raised e w
         | Inr src \<Rightarrow>
             write_msg self
               (Dumps [(''event_type'', JStr ''deleted''),
                       (''is_directory'', JBool (is_directory event)),
                       (''src_path'', JStr src)]) w)
      else Done w)"

text \<open>
  \<^verbatim>\<open>on_moved\<close> is only called with a move (\<open>dispatch\<close> below), the one event that has
  a \<^verbatim>\<open>dest_path\<close>. The dictionary is built in the order written: \<^verbatim>\<open>src_path\<close> first.
\<close>

definition on_moved :: "regex_library \<Rightarrow> Argus \<Rightarrow> fs_event \<Rightarrow> world \<Rightarrow> outcome" where
  "on_moved re self event w =
     (if (is_directory event \<and> ''MVdir'' \<in> set (options self)) \<or>
         (\<not> is_directory event \<and> ''MVfile'' \<in> set (options self))
      then
        (case sub re (root self) '''' (src_path event) of
           Inl e \<Rightarrow> Raised e w
         | Inr src \<Rightarrow>
             (case sub re (root self) '''' (dest_path event) of
                Inl e \<Rightarrow> Raised e w
              | Inr dest \<Rightarrow>
                  write_msg self
                    (Dumps [(''event_type'', JStr ''moved''),
                            (''is_directory'', JBool (is_directory event)),
                            (''src_path'', JStr src),
                            (''dest_path'', JStr dest)]) w))
      else Done w)"

text \<open>
  watchdog's \<^verbatim>\<open>dispatch\<close> calls the method of the event's type (the handler is built
  with the default regexes, which let every path through).
\<close>

fun dispatch :: "regex_library \<Rightarrow> Argus \<Rightarrow> fs_event \<Rightarrow> world \<Rightarrow> outcome" where
  "dispatch re self (Created d p) w = on_created re self (Created d p) w"
| "dispatch re self (Modified d p) w = on_modified re self (Modified d p) w"
| "dispatch re self (Deleted d p) w = on_deleted re self (Deleted d p) w"
| "dispatch re self (Moved d p q) w = on_moved re self (Moved d p q) w"

definition add_socket :: "Argus \<Rightarrow> nat \<Rightarrow> Argus" where
  "add_socket self wbsocket = self\<lparr>websockets := websockets self @ [wbsocket]\<rparr>"

definition remove_socket :: "Argus \<Rightarrow> nat \<Rightarrow> Argus" where
  "remove_socket self wbsocket =
     (if wbsocket \<in> set (websockets self)
      then self\<lparr>websockets := remove1 wbsocket (websockets self)\<rparr>
      else self)"

subsection \<open>The websocket handler \<^verbatim>\<open>ArgusWebSocketHandler\<close>\<close>

text \<open>\<^verbatim>\<open>__init__\<close>, and the connection tornado has set up when it calls \<^verbatim>\<open>open\<close>.\<close>

definition init_ArgusWebSocketHandler :: ArgusWebSocketHandler where
  "init_ArgusWebSocketHandler =
     \<lparr>started_observer = False, observer = None, path = None,
      ws_connection = True, on_close_called = False, sent = []\<rparr>"

text \<open>
  \<^verbatim>\<open>initiation_handler\<close>. \<open>kw_path\<close> is \<^verbatim>\<open>self.kwargs.get('path')\<close> (\<^verbatim>\<open>os.path.join\<close>
  raises on \<^verbatim>\<open>None\<close>), and \<open>enable\<close> and \<open>disable\<close> are what \<^verbatim>\<open>self.get_arguments\<close>
  returns for these two names. \<^verbatim>\<open>OSError\<close> is caught in the method: whether
  \<^verbatim>\<open>self.observer.start()\<close> raises it is \<open>observer_can_start\<close> of the environment, and an
  observer that failed to start stays \<open>Unstarted\<close>.
\<close>

definition initiation_handler ::
  "os \<Rightarrow> nat \<Rightarrow> string option \<Rightarrow> string list \<Rightarrow> string list \<Rightarrow> world \<Rightarrow> outcome" where
  "initiation_handler env self kw_path enable disable w =
     (case kw_path of
        None \<Rightarrow> Raised AttributeError w
      | Some p \<Rightarrow>
          let P = os_path_join (ARGUS_ROOT env) p;
              w1 = update_socket self (\<lambda>ss. ss\<lparr>path := Some P\<rparr>) w
          in
          if \<not> path_exists env P then
            (case write_message self (Text ''Path does not exist.'') w1 of
               Raised e w2 \<Rightarrow> Raised e w2
             | Done w2 \<Rightarrow> Done (close self w2))
          else if active_observers w1 P \<noteq> None then
            (case active_handlers w1 P of
               None \<Rightarrow> Raised KeyError w1
             | Some event_handler \<Rightarrow>
                 let w2 = w1\<lparr>active_handlers :=
                             (active_handlers w1)(P \<mapsto> add_socket event_handler self)\<rparr>;
                     w3 = update_socket self (\<lambda>ss. ss\<lparr>observer := active_observers w2 P\<rparr>) w2
                 in Done (update_socket self (\<lambda>ss. ss\<lparr>started_observer := True\<rparr>) w3))
          else
            let options = define_options enable disable in
            if options = [] then Done w1
            else
              let event_handler = \<lparr>websockets = [self], root = P, options = options\<rparr>;
                  (ob, w2) = new_Observer w1;
                  w3 = update_socket self (\<lambda>ss. ss\<lparr>observer := Some ob\<rparr>) w2;
                  w4 = schedule ob P w3
              in
              if \<not> observer_can_start env then
                (case write_message self (Text ''Cannot start observer'') w4 of
                   Raised e w5 \<Rightarrow> Raised e w5
                 | Done w5 \<Rightarrow> Done (close self w5))
              else
                let w5 = start ob w4;
                    w6 = w5\<lparr>active_handlers := (active_handlers w5)(P \<mapsto> event_handler)\<rparr>;
                    w7 = w6\<lparr>active_observers := (active_observers w6)(P \<mapsto> ob)\<rparr>
                in Done (update_socket self (\<lambda>ss. ss\<lparr>started_observer := True\<rparr>) w7))"

text \<open>
  \<^verbatim>\<open>open\<close>: a connection arrives, tornado builds the handler object \<open>self\<close> and calls
  \<^verbatim>\<open>open\<close>, which starts the keepalive (not modelled) and calls \<^verbatim>\<open>initiation_handler\<close>.
\<close>

definition ws_open ::
  "os \<Rightarrow> nat \<Rightarrow> string option \<Rightarrow> string list \<Rightarrow> string list \<Rightarrow> world \<Rightarrow> outcome" where
  "ws_open env self kw_path enable disable w =
     initiation_handler env self kw_path enable disable
       (w\<lparr>sockets := (sockets w)(self \<mapsto> init_ArgusWebSocketHandler)\<rparr>)"

text \<open>
  \<^verbatim>\<open>on_close\<close> (stopping the keepalive is not modelled). \<^verbatim>\<open>active_handlers[self.path]\<close>
  and the two \<^verbatim>\<open>del\<close> raise \<^verbatim>\<open>KeyError\<close> on a missing key; \<^verbatim>\<open>self.observer.stop()\<close>
  raises \<^verbatim>\<open>AttributeError\<close> on \<^verbatim>\<open>None\<close>. \<^verbatim>\<open>remove_socket\<close> changes the handler object in
  place, so the change is there when a later statement raises.
\<close>

definition on_close :: "nat \<Rightarrow> world \<Rightarrow> outcome" where
  "on_close self w =
     (case sockets w self of
        None \<Rightarrow> Done w
      | Some ss \<Rightarrow>
          if started_observer ss then
            (case (case path ss of None \<Rightarrow> None | Some P \<Rightarrow> active_handlers w P) of
               None \<Rightarrow> Raised KeyError w
             | Some event_handler \<Rightarrow>
                 let P = the (path ss);
                     event_handler' = remove_socket event_handler self;
                     w1 = w\<lparr>active_handlers := (active_handlers w)(P \<mapsto> event_handler')\<rparr>
                 in
                 if websockets event_handler' = [] then
                   (case observer ss of
                      None \<Rightarrow> Raised AttributeError w1
                    | Some ob \<Rightarrow>
                        let w2 = stop ob w1 in
                        if active_observers w2 P = None then Raised KeyError w2
                        else
                          let w3 = w2\<lparr>active_observers := (active_observers w2)(P := None)\<rparr>
                          in Done (w3\<lparr>active_handlers := (active_handlers w3)(P := None)\<rparr>))
                 else Done w1)
          else Done w)"

text \<open>
  The connection of \<open>self\<close> ends: tornado drops \<open>ws_connection\<close> and calls
  \<^verbatim>\<open>on_close\<close>, once.
\<close>

definition on_connection_close :: "nat \<Rightarrow> world \<Rightarrow> outcome" where
  "on_connection_close self w =
     on_close self
       (update_socket self (\<lambda>ss. ss\<lparr>ws_connection := False, on_close_called := True\<rparr>) w)"

subsection \<open>The states the server reaches\<close>

definition init_world :: world where
  "init_world =
     \<lparr>active_handlers = Map.empty, active_observers = Map.empty,
      observers = [], sockets = Map.empty\<rparr>"

text \<open>
  From the empty registry: a connection to a new handler object is opened; the
  connection of an open handler ends; the observer of a watched path reports an
  event to the handler registered for it (whatever the library \<open>re\<close> answers).
\<close>

inductive reachable :: "world \<Rightarrow> bool" where
  init: "reachable init_world"
| connect:
    "reachable w \<Longrightarrow> sockets w self = None \<Longrightarrow>
     reachable (state_of (ws_open env self kw_path enable disable w))"
| disconnect:
    "reachable w \<Longrightarrow> sockets w self = Some ss \<Longrightarrow> \<not> on_close_called ss \<Longrightarrow>
     reachable (state_of (on_connection_close self w))"
| fs_event:
    "reachable w \<Longrightarrow> active_handlers w P = Some event_handler \<Longrightarrow>
     reachable (state_of (dispatch re event_handler event w))"

text \<open>The observers that run with \<open>P\<close> scheduled: the monitors of \<open>P\<close>.\<close>

definition monitors :: "world \<Rightarrow> string \<Rightarrow> nat list" where
  "monitors w P =
     filter (\<lambda>ob. status (observers w ! ob) = Running \<and> P \<in> set (scheduled (observers w ! ob)))
       [0 ..< length (observers w)]"

subsection \<open>Consistency of the registry\<close>

definition same_keys :: "world \<Rightarrow> bool" where
  "same_keys w \<longleftrightarrow> dom (active_handlers w) = dom (active_observers w)"

definition handlers_ok :: "world \<Rightarrow> bool" where
  "handlers_ok w \<longleftrightarrow>
     (\<forall>P h. active_handlers w P = Some h \<longrightarrow>
        websockets h \<noteq> [] \<and> distinct (websockets h) \<and> root h = P \<and> options h \<noteq> [] \<and>
        (\<forall>s \<in> set (websockets h). \<exists>ss. sockets w s = Some ss \<and>
           started_observer ss \<and> \<not> on_close_called ss \<and> path ss = Some P \<and>
           observer ss = active_observers w P))"

definition subscribed_ok :: "world \<Rightarrow> bool" where
  "subscribed_ok w \<longleftrightarrow>
     (\<forall>s ss. sockets w s = Some ss \<longrightarrow> started_observer ss \<longrightarrow> \<not> on_close_called ss \<longrightarrow>
        (\<exists>P h. path ss = Some P \<and> active_handlers w P = Some h \<and> s \<in> set (websockets h)))"

definition observers_ok :: "world \<Rightarrow> bool" where
  "observers_ok w \<longleftrightarrow>
     (\<forall>P ob. active_observers w P = Some ob \<longrightarrow>
        ob < length (observers w) \<and>
        observers w ! ob = \<lparr>scheduled = [P], status = Running\<rparr>) \<and>
     (\<forall>ob < length (observers w). status (observers w ! ob) = Running \<longrightarrow>
        (\<exists>P. active_observers w P = Some ob))"

definition registry_ok :: "world \<Rightarrow> bool" where
  "registry_ok w \<longleftrightarrow> same_keys w \<and> handlers_ok w \<and> subscribed_ok w \<and> observers_ok w"

text \<open>Two states that differ at most in what has been sent to the sockets.\<close>

definition same_but_sent :: "world \<Rightarrow> world \<Rightarrow> bool" where
  "same_but_sent w w' \<longleftrightarrow>
     active_handlers w' = active_handlers w \<and>
     active_observers w' = active_observers w \<and>
     observers w' = observers w \<and>
     (\<forall>s. sockets w s = None \<longrightarrow> sockets w' s = None) \<and>
     (\<forall>s ss. sockets w s = Some ss \<longrightarrow> (\<exists>m. sockets w' s = Some (ss\<lparr>sent := m\<rparr>)))"

subsection \<open>Notions used to state the properties\<close>

text \<open>
  The token of an event, as the specification gives it: created selects \<open>CRfile\<close> or
  \<open>CRdir\<close>, modified \<open>MDfile\<close> or \<open>MDdir\<close>, deleted \<open>DLfile\<close> or \<open>DLdir\<close>, moved
  \<open>MVfile\<close> or \<open>MVdir\<close>, by the directory flag.
\<close>

fun token :: "fs_event \<Rightarrow> string" where
  "token (Created d p) = (if d then ''CRdir'' else ''CRfile'')"
| "token (Modified d p) = (if d then ''MDdir'' else ''MDfile'')"
| "token (Deleted d p) = (if d then ''DLdir'' else ''DLfile'')"
| "token (Moved d p q) = (if d then ''MVdir'' else ''MVfile'')"

text \<open>The \<^verbatim>\<open>event_type\<close> of an event, and the fields the specification gives its message.\<close>

fun event_type :: "fs_event \<Rightarrow> string" where
  "event_type (Created d p) = ''created''"
| "event_type (Modified d p) = ''modified''"
| "event_type (Deleted d p) = ''deleted''"
| "event_type (Moved d p q) = ''moved''"

fun message_fields :: "fs_event \<Rightarrow> string list" where
  "message_fields (Moved d p q) = [''event_type'', ''is_directory'', ''src_path'', ''dest_path'']"
| "message_fields event = [''event_type'', ''is_directory'', ''src_path'']"

text \<open>A socket that takes a message, and the state once it has taken one.\<close>

definition writable :: "world \<Rightarrow> nat \<Rightarrow> bool" where
  "writable w s = (case sockets w s of None \<Rightarrow> False | Some ss \<Rightarrow> ws_connection ss)"

definition deliver :: "message \<Rightarrow> world \<Rightarrow> nat \<Rightarrow> world" where
  "deliver message w s = update_socket s (\<lambda>ss. ss\<lparr>sent := sent ss @ [message]\<rparr>) w"

text \<open>What a socket has been sent.\<close>

definition inbox :: "world \<Rightarrow> nat \<Rightarrow> message list" where
  "inbox w s = (case sockets w s of None \<Rightarrow> [] | Some ss \<Rightarrow> sent ss)"

text \<open>
  Connections to the same \<^verbatim>\<open>path\<close> are opened one after the other, each from a new
  handler object and with its own \<^verbatim>\<open>enable\<close> and \<^verbatim>\<open>disable\<close> arguments.
\<close>

fun open_all :: "os \<Rightarrow> string \<Rightarrow> (nat \<times> string list \<times> string list) list \<Rightarrow> world \<Rightarrow> world" where
  "open_all env p [] w = w"
| "open_all env p ((self, enable, disable) # rest) w =
     open_all env p rest (state_of (ws_open env self (Some p) enable disable w))"

text \<open>A server rooted at \<^verbatim>\<open>/watched\<close> whose directory \<^verbatim>\<open>a\<close> exists, for the examples.\<close>

definition example_os :: os where
  "example_os =
     \<lparr>ARGUS_ROOT = ''/watched'', path_exists = (\<lambda>p. p = ''/watched/a''),
      observer_can_start = True\<rparr>"

text \<open>
  Two sockets subscribed to \<^verbatim>\<open>/watched\<close> with the default options; the connection of
  the first is up or down as \<open>first_connected\<close> says, that of the second is up.
\<close>

definition example_socket :: "bool \<Rightarrow> ArgusWebSocketHandler" where
  "example_socket connected =
     \<lparr>started_observer = True, observer = Some 0, path = Some ''/watched'',
      ws_connection = connected, on_close_called = False, sent = []\<rparr>"

definition example_handler :: Argus where
  "example_handler = \<lparr>websockets = [0, 1], root = ''/watched'', options = default_options\<rparr>"

definition example_world :: "bool \<Rightarrow> world" where
  "example_world first_connected =
     \<lparr>active_handlers = [''/watched'' \<mapsto> example_handler],
      active_observers = [''/watched'' \<mapsto> 0],
      observers = [\<lparr>scheduled = [''/watched''], status = Running\<rparr>],
      sockets = [0 \<mapsto> example_socket first_connected, 1 \<mapsto> example_socket True]\<rparr>"

text \<open>The state once a first socket has subscribed to \<^verbatim>\<open>a\<close> with no arguments.\<close>

definition example_subscribed :: world where
  "example_subscribed = state_of (ws_open example_os 0 (Some ''a'') [] [] init_world)"

text \<open>
  A library for the examples: they ask it nothing, since the model works out their
  patterns itself.
\<close>

definition example_re :: regex_library where
  "example_re pattern repl s = Inl re_error"

text \<open>
  The same server with a directory \<^verbatim>\<open>a(b\<close>: a handler for it with two subscribers, and
  the states once a first socket has subscribed to it with no arguments and a second
  one with everything disabled.
\<close>

definition group_handler :: Argus where
  "group_handler = \<lparr>websockets = [0, 1], root = ''/watched/a(b'', options = default_options\<rparr>"

definition group_os :: os where
  "group_os =
     \<lparr>ARGUS_ROOT = ''/watched'', path_exists = (\<lambda>p. p = ''/watched/a(b''),
      observer_can_start = True\<rparr>"

definition group_subscribed :: world where
  "group_subscribed = state_of (ws_open group_os 0 (Some ''a(b'') [] [] init_world)"

definition group_attached :: world where
  "group_attached = state_of (ws_open group_os 1 (Some ''a(b'') [] [''all''] group_subscribed)"

section \<open>The branches of the two entry points\<close>

lemmas obs_defs = new_Observer_def update_observer_def schedule_def start_def stop_def

lemmas sock_defs = update_socket_def close_def write_message_def init_ArgusWebSocketHandler_def

text \<open>
  \<^verbatim>\<open>open\<close> in closed form, one lemma for each way through \<^verbatim>\<open>initiation_handler\<close>.
\<close>

lemma ws_open_missing:
  assumes "P = os_path_join (ARGUS_ROOT env) p" "\<not> path_exists env P"
  shows "ws_open env self (Some p) enable disable w =
     Done (w\<lparr>sockets := (sockets w)(self \<mapsto>
        \<lparr>started_observer = False, observer = None, path = Some P,
         ws_connection = False, on_close_called = False,
         sent = [Text ''Path does not exist.'']\<rparr>)\<rparr>)"
  using assms by (simp add: ws_open_def initiation_handler_def sock_defs Let_def)

lemma ws_open_attach:
  assumes "P = os_path_join (ARGUS_ROOT env) p" "path_exists env P"
    "active_observers w P = Some ob" "active_handlers w P = Some h"
  shows "ws_open env self (Some p) enable disable w =
     Done (w\<lparr>active_handlers := (active_handlers w)(P \<mapsto> h\<lparr>websockets := websockets h @ [self]\<rparr>),
             sockets := (sockets w)(self \<mapsto>
                \<lparr>started_observer = True, observer = Some ob, path = Some P,
                 ws_connection = True, on_close_called = False, sent = []\<rparr>)\<rparr>)"
  using assms by (simp add: ws_open_def initiation_handler_def sock_defs Let_def add_socket_def)

lemma ws_open_attach_KeyError:
  assumes "P = os_path_join (ARGUS_ROOT env) p" "path_exists env P"
    "active_observers w P = Some ob" "active_handlers w P = None"
  shows "ws_open env self (Some p) enable disable w =
     Raised KeyError (w\<lparr>sockets := (sockets w)(self \<mapsto>
                \<lparr>started_observer = False, observer = None, path = Some P,
                 ws_connection = True, on_close_called = False, sent = []\<rparr>)\<rparr>)"
  using assms by (simp add: ws_open_def initiation_handler_def sock_defs Let_def add_socket_def)

lemma ws_open_no_options:
  assumes "P = os_path_join (ARGUS_ROOT env) p" "path_exists env P"
    "active_observers w P = None" "define_options enable disable = []"
  shows "ws_open env self (Some p) enable disable w =
     Done (w\<lparr>sockets := (sockets w)(self \<mapsto>
                \<lparr>started_observer = False, observer = None, path = Some P,
                 ws_connection = True, on_close_called = False, sent = []\<rparr>)\<rparr>)"
  using assms by (simp add: ws_open_def initiation_handler_def sock_defs Let_def)

lemma ws_open_OSError:
  assumes "P = os_path_join (ARGUS_ROOT env) p" "path_exists env P"
    "active_observers w P = None" "define_options enable disable \<noteq> []"
    "\<not> observer_can_start env"
  shows "ws_open env self (Some p) enable disable w =
     Done (w\<lparr>observers := observers w @ [\<lparr>scheduled = [P], status = Unstarted\<rparr>],
             sockets := (sockets w)(self \<mapsto>
                \<lparr>started_observer = False, observer = Some (length (observers w)), path = Some P,
                 ws_connection = False, on_close_called = False,
                 sent = [Text ''Cannot start observer'']\<rparr>)\<rparr>)"
  using assms by (simp add: ws_open_def initiation_handler_def sock_defs obs_defs Let_def)

lemma ws_open_create:
  assumes "P = os_path_join (ARGUS_ROOT env) p" "path_exists env P"
    "active_observers w P = None" "define_options enable disable \<noteq> []"
    "observer_can_start env"
  shows "ws_open env self (Some p) enable disable w =
     Done (w\<lparr>active_handlers := (active_handlers w)(P \<mapsto>
                \<lparr>websockets = [self], root = P, options = define_options enable disable\<rparr>),
             active_observers := (active_observers w)(P \<mapsto> length (observers w)),
             observers := observers w @ [\<lparr>scheduled = [P], status = Running\<rparr>],
             sockets := (sockets w)(self \<mapsto>
                \<lparr>started_observer = True, observer = Some (length (observers w)), path = Some P,
                 ws_connection = True, on_close_called = False, sent = []\<rparr>)\<rparr>)"
  using assms by (simp add: ws_open_def initiation_handler_def sock_defs obs_defs Let_def)

lemma ws_open_no_path:
  "ws_open env self None enable disable w =
     Raised AttributeError (w\<lparr>sockets := (sockets w)(self \<mapsto> init_ArgusWebSocketHandler)\<rparr>)"
  by (simp add: ws_open_def initiation_handler_def)

text \<open>
  The end of a connection in closed form, one lemma for each way through \<^verbatim>\<open>on_close\<close>.
\<close>

lemma on_connection_close_idle:
  assumes "sockets w self = Some ss" "\<not> started_observer ss"
  shows "on_connection_close self w =
     Done (w\<lparr>sockets := (sockets w)(self \<mapsto> ss\<lparr>ws_connection := False, on_close_called := True\<rparr>)\<rparr>)"
  using assms by (simp add: on_connection_close_def on_close_def sock_defs)

lemma on_connection_close_KeyError:
  assumes "sockets w self = Some ss" "started_observer ss"
    "path ss = None \<or> (\<exists>P. path ss = Some P \<and> active_handlers w P = None)"
  shows "on_connection_close self w =
     Raised KeyError (w\<lparr>sockets := (sockets w)(self \<mapsto> ss\<lparr>ws_connection := False, on_close_called := True\<rparr>)\<rparr>)"
  using assms by (auto simp add: on_connection_close_def on_close_def sock_defs)

lemma on_connection_close_others:
  assumes "sockets w self = Some ss" "started_observer ss" "path ss = Some P"
    "active_handlers w P = Some h" "websockets (remove_socket h self) \<noteq> []"
  shows "on_connection_close self w =
     Done (w\<lparr>active_handlers := (active_handlers w)(P \<mapsto> remove_socket h self),
             sockets := (sockets w)(self \<mapsto> ss\<lparr>ws_connection := False, on_close_called := True\<rparr>)\<rparr>)"
  using assms by (simp add: on_connection_close_def on_close_def sock_defs Let_def)

lemma on_connection_close_last:
  assumes "sockets w self = Some ss" "started_observer ss" "path ss = Some P"
    "active_handlers w P = Some h" "websockets (remove_socket h self) = []"
    "observer ss = Some ob" "active_observers w P \<noteq> None"
  shows "on_connection_close self w =
     Done (w\<lparr>active_handlers := (active_handlers w)(P := None),
             active_observers := (active_observers w)(P := None),
             observers := (if ob < length (observers w)
                 then (observers w)[ob := (observers w ! ob)\<lparr>status := Stopped\<rparr>] else observers w),
             sockets := (sockets w)(self \<mapsto> ss\<lparr>ws_connection := False, on_close_called := True\<rparr>)\<rparr>)"
  using assms by (simp add: on_connection_close_def on_close_def sock_defs obs_defs Let_def)

section \<open>The registry stays consistent\<close>

lemma sent_self: "\<exists>m. ss = ss\<lparr>sent := m\<rparr>"
  by (rule exI[of _ "sent ss"]) simp

text \<open>
  Writing messages changes the \<open>sent\<close> fields only, which the consistency of the
  registry does not read.
\<close>

lemma same_but_sent_refl: "same_but_sent w w"
  unfolding same_but_sent_def by (simp add: sent_self)

lemma same_but_sent_trans:
  assumes "same_but_sent a b" "same_but_sent b c"
  shows "same_but_sent a c"
proof -
  have "\<exists>m. sockets c s = Some (ss\<lparr>sent := m\<rparr>)" if "sockets a s = Some ss" for s ss
  proof -
    from assms(1) that obtain m where b: "sockets b s = Some (ss\<lparr>sent := m\<rparr>)"
      unfolding same_but_sent_def by blast
    with assms(2) obtain m' where "sockets c s = Some (ss\<lparr>sent := m, sent := m'\<rparr>)"
      unfolding same_but_sent_def by blast
    then have "sockets c s = Some (ss\<lparr>sent := m'\<rparr>)" by simp
    then show ?thesis by blast
  qed
  with assms show ?thesis unfolding same_but_sent_def by simp
qed

lemma write_message_same_but_sent: "same_but_sent w (state_of (write_message s m w))"
  unfolding same_but_sent_def write_message_def
  by (auto split: option.splits simp: sent_self)

lemma write_all_same_but_sent: "same_but_sent w (state_of (write_all ws m w))"
proof (induction ws arbitrary: w)
  case Nil
  show ?case by (simp add: same_but_sent_refl)
next
  case (Cons s ws)
  show ?case
  proof (cases "write_message s m w")
    case (Done w')
    then have "same_but_sent w w'" using write_message_same_but_sent[of w s m] by simp
    moreover have "same_but_sent w' (state_of (write_all ws m w'))" by (rule Cons.IH)
    ultimately show ?thesis using Done by (simp add: same_but_sent_trans)
  next
    case (Raised e w')
    then show ?thesis using write_message_same_but_sent[of w s m] by simp
  qed
qed

lemma dispatch_same_but_sent: "same_but_sent w (state_of (dispatch re h ev w))"
  by (cases ev)
     (auto simp: on_created_def on_modified_def on_deleted_def on_moved_def write_msg_def
        write_all_same_but_sent same_but_sent_refl split: sum.splits)

lemma same_but_sent_registry_ok:
  assumes "same_but_sent w w'" "registry_ok w"
  shows "registry_ok w'"
proof -
  have eqs: "active_handlers w' = active_handlers w" "active_observers w' = active_observers w"
    "observers w' = observers w"
    using assms(1) by (simp_all add: same_but_sent_def)
  have fwd: "\<exists>m. sockets w' s = Some (ss\<lparr>sent := m\<rparr>)" if "sockets w s = Some ss" for s ss
    using assms(1) that unfolding same_but_sent_def by blast
  have bwd: "\<exists>ss m. sockets w s = Some ss \<and> ss' = ss\<lparr>sent := m\<rparr>" if "sockets w' s = Some ss'" for s ss'
  proof (cases "sockets w s")
    case None
    with assms(1) have "sockets w' s = None" unfolding same_but_sent_def by blast
    with that show ?thesis by simp
  next
    case (Some ss)
    with fwd that show ?thesis by fastforce
  qed
  have "same_keys w'" using assms(2) by (simp add: registry_ok_def same_keys_def eqs)
  moreover have "observers_ok w'" using assms(2) by (simp add: registry_ok_def observers_ok_def eqs)
  moreover have "handlers_ok w'"
    unfolding handlers_ok_def eqs
  proof (intro allI impI)
    fix P h assume h: "active_handlers w P = Some h"
    with assms(2) have a: "websockets h \<noteq> [] \<and> distinct (websockets h) \<and> root h = P \<and> options h \<noteq> []"
      and b: "\<forall>s \<in> set (websockets h). \<exists>ss. sockets w s = Some ss \<and>
           started_observer ss \<and> \<not> on_close_called ss \<and> path ss = Some P \<and>
           observer ss = active_observers w P"
      by (auto simp: registry_ok_def handlers_ok_def)
    have "\<exists>ss. sockets w' s = Some ss \<and>
           started_observer ss \<and> \<not> on_close_called ss \<and> path ss = Some P \<and>
           observer ss = active_observers w P" if "s \<in> set (websockets h)" for s
    proof -
      from b that obtain ss where ss: "sockets w s = Some ss" "started_observer ss"
        "\<not> on_close_called ss" "path ss = Some P" "observer ss = active_observers w P" by blast
      from fwd[OF ss(1)] obtain m where "sockets w' s = Some (ss\<lparr>sent := m\<rparr>)" ..
      with ss show ?thesis by simp
    qed
    with a show "websockets h \<noteq> [] \<and> distinct (websockets h) \<and> root h = P \<and> options h \<noteq> [] \<and>
        (\<forall>s \<in> set (websockets h). \<exists>ss. sockets w' s = Some ss \<and>
           started_observer ss \<and> \<not> on_close_called ss \<and> path ss = Some P \<and>
           observer ss = active_observers w P)" by blast
  qed
  moreover have "subscribed_ok w'"
    unfolding subscribed_ok_def eqs
  proof (intro allI impI)
    fix s ss' assume s: "sockets w' s = Some ss'" "started_observer ss'" "\<not> on_close_called ss'"
    from bwd[OF s(1)] obtain ss m where ss: "sockets w s = Some ss" "ss' = ss\<lparr>sent := m\<rparr>" by blast
    with s assms(2) show "\<exists>P h. path ss' = Some P \<and> active_handlers w P = Some h \<and> s \<in> set (websockets h)"
      by (auto simp: registry_ok_def subscribed_ok_def)
  qed
  ultimately show ?thesis by (simp add: registry_ok_def)
qed

lemma listed_socket_exists:
  assumes "handlers_ok w" "active_handlers w P = Some h" "s \<in> set (websockets h)"
  shows "sockets w s \<noteq> None"
  using assms unfolding handlers_ok_def by fastforce

text \<open>
  Each closed form of the two entry points keeps the registry consistent.
\<close>

lemma add_idle_socket_ok:
  assumes ok: "registry_ok w" and fresh: "sockets w self = None" and idle: "\<not> started_observer ss"
  shows "registry_ok (w\<lparr>sockets := (sockets w)(self \<mapsto> ss)\<rparr>)"
proof -
  let ?w = "w\<lparr>sockets := (sockets w)(self \<mapsto> ss)\<rparr>"
  have notin: "self \<notin> set (websockets h)" if "active_handlers w P = Some h" for P h
    using listed_socket_exists[of w P h self] ok that fresh by (auto simp: registry_ok_def)
  have "same_keys ?w" using ok by (simp add: registry_ok_def same_keys_def)
  moreover have "observers_ok ?w" using ok by (simp add: registry_ok_def observers_ok_def)
  moreover have "handlers_ok ?w"
    unfolding handlers_ok_def
  proof (intro allI impI)
    fix P h assume "active_handlers ?w P = Some h"
    then have h: "active_handlers w P = Some h" by simp
    from ok h have a: "websockets h \<noteq> [] \<and> distinct (websockets h) \<and> root h = P \<and> options h \<noteq> []"
      and b: "\<forall>s \<in> set (websockets h). \<exists>ss. sockets w s = Some ss \<and>
           started_observer ss \<and> \<not> on_close_called ss \<and> path ss = Some P \<and>
           observer ss = active_observers w P"
      by (auto simp: registry_ok_def handlers_ok_def)
    from b notin[OF h] have "\<forall>s \<in> set (websockets h). \<exists>ss. sockets ?w s = Some ss \<and>
           started_observer ss \<and> \<not> on_close_called ss \<and> path ss = Some P \<and>
           observer ss = active_observers ?w P"
      by auto
    with a show "websockets h \<noteq> [] \<and> distinct (websockets h) \<and> root h = P \<and> options h \<noteq> [] \<and>
        (\<forall>s \<in> set (websockets h). \<exists>ss. sockets ?w s = Some ss \<and>
           started_observer ss \<and> \<not> on_close_called ss \<and> path ss = Some P \<and>
           observer ss = active_observers ?w P)" by blast
  qed
  moreover have "subscribed_ok ?w"
    using ok idle unfolding registry_ok_def subscribed_ok_def
    by (auto split: if_splits)
  ultimately show ?thesis by (simp add: registry_ok_def)
qed

lemma add_idle_observer_ok:
  assumes ok: "registry_ok w" and idle: "status ob \<noteq> Running"
  shows "registry_ok (w\<lparr>observers := observers w @ [ob]\<rparr>)"
proof -
  let ?w = "w\<lparr>observers := observers w @ [ob]\<rparr>"
  have "same_keys ?w" using ok by (simp add: registry_ok_def same_keys_def)
  moreover have "observers_ok ?w" using ok idle unfolding registry_ok_def observers_ok_def
    by (auto simp: nth_append less_Suc_eq)
  moreover have "handlers_ok ?w"
    using ok unfolding registry_ok_def handlers_ok_def by simp
  moreover have "subscribed_ok ?w"
    using ok unfolding registry_ok_def subscribed_ok_def by simp
  ultimately show ?thesis by (simp add: registry_ok_def)
qed

lemma attach_ok:
  assumes ok: "registry_ok w" and fresh: "sockets w self = None"
    and ob: "active_observers w P = Some ob" and h: "active_handlers w P = Some h"
    and S: "started_observer S" "\<not> on_close_called S" "path S = Some P" "observer S = Some ob"
  shows "registry_ok (w\<lparr>active_handlers := (active_handlers w)(P \<mapsto> h\<lparr>websockets := websockets h @ [self]\<rparr>),
             sockets := (sockets w)(self \<mapsto> S)\<rparr>)"
    (is "registry_ok ?w")
proof -
  have notin: "self \<notin> set (websockets h')" if "active_handlers w Q = Some h'" for Q h'
    using listed_socket_exists[of w Q h' self] ok that fresh by (auto simp: registry_ok_def)
  have hk: "handlers_ok w" and sk: "subscribed_ok w" using ok by (simp_all add: registry_ok_def)
  have "same_keys ?w" using ok h ob by (auto simp: registry_ok_def same_keys_def)
  moreover have "observers_ok ?w" using ok by (simp add: registry_ok_def observers_ok_def)
  moreover have "handlers_ok ?w"
    unfolding handlers_ok_def
  proof (intro allI impI)
    fix Q h' assume q: "active_handlers ?w Q = Some h'"
    show "websockets h' \<noteq> [] \<and> distinct (websockets h') \<and> root h' = Q \<and> options h' \<noteq> [] \<and>
        (\<forall>s \<in> set (websockets h'). \<exists>ss. sockets ?w s = Some ss \<and>
           started_observer ss \<and> \<not> on_close_called ss \<and> path ss = Some Q \<and>
           observer ss = active_observers ?w Q)"
    proof (cases "Q = P")
      case True
      with q have h': "h' = h\<lparr>websockets := websockets h @ [self]\<rparr>" by simp
      from hk h have a: "distinct (websockets h) \<and> root h = P \<and> options h \<noteq> []"
        and b: "\<forall>s \<in> set (websockets h). \<exists>ss. sockets w s = Some ss \<and>
           started_observer ss \<and> \<not> on_close_called ss \<and> path ss = Some P \<and>
           observer ss = active_observers w P"
        by (auto simp: handlers_ok_def)
      from b notin[OF h] S ob have "\<forall>s \<in> set (websockets h'). \<exists>ss. sockets ?w s = Some ss \<and>
           started_observer ss \<and> \<not> on_close_called ss \<and> path ss = Some P \<and>
           observer ss = active_observers ?w P"
        unfolding h' by auto
      with a notin[OF h] True show ?thesis unfolding h' by simp
    next
      case False
      with q have q': "active_handlers w Q = Some h'" by simp
      from hk q' have a: "websockets h' \<noteq> [] \<and> distinct (websockets h') \<and> root h' = Q \<and> options h' \<noteq> []"
        and b: "\<forall>s \<in> set (websockets h'). \<exists>ss. sockets w s = Some ss \<and>
           started_observer ss \<and> \<not> on_close_called ss \<and> path ss = Some Q \<and>
           observer ss = active_observers w Q"
        by (auto simp: handlers_ok_def)
      from b notin[OF q'] have "\<forall>s \<in> set (websockets h'). \<exists>ss. sockets ?w s = Some ss \<and>
           started_observer ss \<and> \<not> on_close_called ss \<and> path ss = Some Q \<and>
           observer ss = active_observers ?w Q"
        by auto
      with a show ?thesis by blast
    qed
  qed
  moreover have "subscribed_ok ?w"
    unfolding subscribed_ok_def
  proof (intro allI impI)
    fix s ss assume s: "sockets ?w s = Some ss" "started_observer ss" "\<not> on_close_called ss"
    show "\<exists>Q h'. path ss = Some Q \<and> active_handlers ?w Q = Some h' \<and> s \<in> set (websockets h')"
    proof (cases "s = self")
      case True
      with s S show ?thesis by simp
    next
      case False
      with s have "sockets w s = Some ss" by simp
      with sk s obtain Q h' where q: "path ss = Some Q" "active_handlers w Q = Some h'" "s \<in> set (websockets h')"
        unfolding subscribed_ok_def by blast
      show ?thesis
      proof (cases "Q = P")
        case True
        with q h show ?thesis by simp
      next
        case False
        with q show ?thesis by simp
      qed
    qed
  qed
  ultimately show ?thesis by (simp add: registry_ok_def)
qed

lemma create_ok:
  assumes ok: "registry_ok w" and fresh: "sockets w self = None"
    and ob: "active_observers w P = None" and opts: "opts \<noteq> []"
    and S: "started_observer S" "\<not> on_close_called S" "path S = Some P"
       "observer S = Some (length (observers w))"
  shows "registry_ok (w\<lparr>active_handlers := (active_handlers w)(P \<mapsto>
                \<lparr>websockets = [self], root = P, options = opts\<rparr>),
             active_observers := (active_observers w)(P \<mapsto> length (observers w)),
             observers := observers w @ [\<lparr>scheduled = [P], status = Running\<rparr>],
             sockets := (sockets w)(self \<mapsto> S)\<rparr>)"
    (is "registry_ok ?w")
proof -
  have notin: "self \<notin> set (websockets h')" if "active_handlers w Q = Some h'" for Q h'
    using listed_socket_exists[of w Q h' self] ok that fresh by (auto simp: registry_ok_def)
  have hk: "handlers_ok w" and sk: "subscribed_ok w" and ok': "observers_ok w"
    using ok by (simp_all add: registry_ok_def)
  have "same_keys ?w" using ok by (auto simp: registry_ok_def same_keys_def)
  moreover have "observers_ok ?w"
  proof -
    have 1: "ob' < length (observers ?w) \<and>
        observers ?w ! ob' = \<lparr>scheduled = [Q], status = Running\<rparr>"
      if "active_observers ?w Q = Some ob'" for Q ob'
    proof (cases "Q = P")
      case True
      with that show ?thesis by auto
    next
      case False
      with that have "active_observers w Q = Some ob'" by simp
      with ok' have "ob' < length (observers w)"
        "observers w ! ob' = \<lparr>scheduled = [Q], status = Running\<rparr>"
        unfolding observers_ok_def by blast+
      then show ?thesis by (simp add: nth_append)
    qed
    have 2: "\<exists>Q. active_observers ?w Q = Some ob'"
      if "ob' < length (observers ?w)" "status (observers ?w ! ob') = Running" for ob'
    proof (cases "ob' = length (observers w)")
      case True
      then show ?thesis by auto
    next
      case False
      with that have lt: "ob' < length (observers w)" and "status (observers w ! ob') = Running"
        by (auto simp: nth_append)
      with ok' obtain Q where Q: "active_observers w Q = Some ob'"
        unfolding observers_ok_def by blast
      with ob have "Q \<noteq> P" by auto
      with Q have "active_observers ?w Q = Some ob'" by simp
      then show ?thesis ..
    qed
    from 1 2 show ?thesis unfolding observers_ok_def by blast
  qed
  moreover have "handlers_ok ?w"
    unfolding handlers_ok_def
  proof (intro allI impI)
    fix Q h' assume q: "active_handlers ?w Q = Some h'"
    show "websockets h' \<noteq> [] \<and> distinct (websockets h') \<and> root h' = Q \<and> options h' \<noteq> [] \<and>
        (\<forall>s \<in> set (websockets h'). \<exists>ss. sockets ?w s = Some ss \<and>
           started_observer ss \<and> \<not> on_close_called ss \<and> path ss = Some Q \<and>
           observer ss = active_observers ?w Q)"
    proof (cases "Q = P")
      case True
      with q have h': "h' = \<lparr>websockets = [self], root = P, options = opts\<rparr>" by simp
      show ?thesis unfolding h' using True S opts by simp
    next
      case False
      with q have q': "active_handlers w Q = Some h'" by simp
      from hk q' have a: "websockets h' \<noteq> [] \<and> distinct (websockets h') \<and> root h' = Q \<and> options h' \<noteq> []"
        and b: "\<forall>s \<in> set (websockets h'). \<exists>ss. sockets w s = Some ss \<and>
           started_observer ss \<and> \<not> on_close_called ss \<and> path ss = Some Q \<and>
           observer ss = active_observers w Q"
        by (auto simp: handlers_ok_def)
      from b notin[OF q'] False have "\<forall>s \<in> set (websockets h'). \<exists>ss. sockets ?w s = Some ss \<and>
           started_observer ss \<and> \<not> on_close_called ss \<and> path ss = Some Q \<and>
           observer ss = active_observers ?w Q"
        by auto
      with a show ?thesis by blast
    qed
  qed
  moreover have "subscribed_ok ?w"
    unfolding subscribed_ok_def
  proof (intro allI impI)
    fix s ss assume s: "sockets ?w s = Some ss" "started_observer ss" "\<not> on_close_called ss"
    show "\<exists>Q h'. path ss = Some Q \<and> active_handlers ?w Q = Some h' \<and> s \<in> set (websockets h')"
    proof (cases "s = self")
      case True
      with s S show ?thesis by simp
    next
      case False
      with s have "sockets w s = Some ss" by simp
      with sk s obtain Q h' where q: "path ss = Some Q" "active_handlers w Q = Some h'" "s \<in> set (websockets h')"
        unfolding subscribed_ok_def by blast
      from q(2) ok ob have "Q \<noteq> P" by (auto simp: registry_ok_def same_keys_def)
      with q show ?thesis by simp
    qed
  qed
  ultimately show ?thesis by (simp add: registry_ok_def)
qed

lemma ws_open_registry_ok:
  assumes ok: "registry_ok w" and fresh: "sockets w self = None"
  shows "registry_ok (state_of (ws_open env self kw_path enable disable w))"
proof (cases kw_path)
  case None
  then show ?thesis
    using add_idle_socket_ok[OF ok fresh, of init_ArgusWebSocketHandler]
    by (simp add: ws_open_no_path init_ArgusWebSocketHandler_def)
next
  case (Some p)
  define P where "P = os_path_join (ARGUS_ROOT env) p"
  show ?thesis
  proof (cases "path_exists env P")
    case False
    show ?thesis unfolding Some ws_open_missing[OF P_def False]
      using add_idle_socket_ok[OF ok fresh] by simp
  next
    case exists: True
    show ?thesis
    proof (cases "active_observers w P")
      case (Some ob)
      with ok obtain h where h: "active_handlers w P = Some h"
        by (auto simp: registry_ok_def same_keys_def)
      show ?thesis unfolding \<open>kw_path = Some p\<close> ws_open_attach[OF P_def exists Some h]
        using attach_ok[OF ok fresh Some h] by simp
    next
      case None
      show ?thesis
      proof (cases "define_options enable disable = []")
        case True
        show ?thesis unfolding Some ws_open_no_options[OF P_def exists None True]
          using add_idle_socket_ok[OF ok fresh] by simp
      next
        case opts: False
        show ?thesis
        proof (cases "observer_can_start env")
          case True
          show ?thesis unfolding Some ws_open_create[OF P_def exists None opts True]
            using create_ok[OF ok fresh None opts] by simp
        next
          case False
          have 1: "registry_ok (w\<lparr>observers := observers w @ [\<lparr>scheduled = [P], status = Unstarted\<rparr>]\<rparr>)"
            using add_idle_observer_ok[OF ok] by simp
          show ?thesis unfolding Some ws_open_OSError[OF P_def exists None opts False]
            using add_idle_socket_ok[OF 1] fresh by simp
        qed
      qed
    qed
  qed
qed

lemma close_idle_ok:
  assumes ok: "registry_ok w" and s: "sockets w self = Some ss" "\<not> started_observer ss"
    and S: "\<not> started_observer S"
  shows "registry_ok (w\<lparr>sockets := (sockets w)(self \<mapsto> S)\<rparr>)" (is "registry_ok ?w")
proof -
  have hk: "handlers_ok w" and sk: "subscribed_ok w" using ok by (simp_all add: registry_ok_def)
  have notin: "self \<notin> set (websockets h')" if "active_handlers w Q = Some h'" for Q h'
    using hk that s unfolding handlers_ok_def by fastforce
  have "same_keys ?w" using ok by (simp add: registry_ok_def same_keys_def)
  moreover have "observers_ok ?w" using ok by (simp add: registry_ok_def observers_ok_def)
  moreover have "handlers_ok ?w"
    unfolding handlers_ok_def
  proof (intro allI impI)
    fix Q h' assume "active_handlers ?w Q = Some h'"
    then have q': "active_handlers w Q = Some h'" by simp
    from hk q' have a: "websockets h' \<noteq> [] \<and> distinct (websockets h') \<and> root h' = Q \<and> options h' \<noteq> []"
      and b: "\<forall>s \<in> set (websockets h'). \<exists>ss. sockets w s = Some ss \<and>
           started_observer ss \<and> \<not> on_close_called ss \<and> path ss = Some Q \<and>
           observer ss = active_observers w Q"
      by (auto simp: handlers_ok_def)
    from b notin[OF q'] have "\<forall>s \<in> set (websockets h'). \<exists>ss. sockets ?w s = Some ss \<and>
           started_observer ss \<and> \<not> on_close_called ss \<and> path ss = Some Q \<and>
           observer ss = active_observers ?w Q"
      by auto
    with a show "websockets h' \<noteq> [] \<and> distinct (websockets h') \<and> root h' = Q \<and> options h' \<noteq> [] \<and>
        (\<forall>s \<in> set (websockets h'). \<exists>ss. sockets ?w s = Some ss \<and>
           started_observer ss \<and> \<not> on_close_called ss \<and> path ss = Some Q \<and>
           observer ss = active_observers ?w Q)" by blast
  qed
  moreover have "subscribed_ok ?w"
    using sk S unfolding subscribed_ok_def by (auto split: if_splits)
  ultimately show ?thesis by (simp add: registry_ok_def)
qed

lemma leave_ok:
  assumes ok: "registry_ok w" and s: "sockets w self = Some ss" "path ss = Some P"
    and h: "active_handlers w P = Some h" and rest: "remove1 self (websockets h) \<noteq> []"
    and S: "on_close_called S"
  shows "registry_ok (w\<lparr>active_handlers := (active_handlers w)(P \<mapsto> h\<lparr>websockets := remove1 self (websockets h)\<rparr>),
             sockets := (sockets w)(self \<mapsto> S)\<rparr>)" (is "registry_ok ?w")
proof -
  have hk: "handlers_ok w" and sk: "subscribed_ok w" using ok by (simp_all add: registry_ok_def)
  have listed: "websockets h' \<noteq> [] \<and> distinct (websockets h') \<and> root h' = Q \<and> options h' \<noteq> []"
    "\<And>s. s \<in> set (websockets h') \<Longrightarrow> \<exists>ss. sockets w s = Some ss \<and>
           started_observer ss \<and> \<not> on_close_called ss \<and> path ss = Some Q \<and>
           observer ss = active_observers w Q"
    if "active_handlers w Q = Some h'" for Q h'
    using hk that unfolding handlers_ok_def by blast+
  have elsewhere: "self \<notin> set (websockets h')" if "active_handlers w Q = Some h'" "Q \<noteq> P" for Q h'
    using listed(2)[OF that(1), of self] that(2) s by auto
  have "same_keys ?w" using ok h by (auto simp: registry_ok_def same_keys_def)
  moreover have "observers_ok ?w" using ok by (simp add: registry_ok_def observers_ok_def)
  moreover have "handlers_ok ?w"
    unfolding handlers_ok_def
  proof (intro allI impI)
    fix Q h' assume q: "active_handlers ?w Q = Some h'"
    show "websockets h' \<noteq> [] \<and> distinct (websockets h') \<and> root h' = Q \<and> options h' \<noteq> [] \<and>
        (\<forall>s \<in> set (websockets h'). \<exists>ss. sockets ?w s = Some ss \<and>
           started_observer ss \<and> \<not> on_close_called ss \<and> path ss = Some Q \<and>
           observer ss = active_observers ?w Q)"
    proof (cases "Q = P")
      case True
      with q have h': "h' = h\<lparr>websockets := remove1 self (websockets h)\<rparr>" by simp
      have d: "distinct (websockets h)" using listed(1)[OF h] by simp
      have "\<exists>ss. sockets ?w s = Some ss \<and>
           started_observer ss \<and> \<not> on_close_called ss \<and> path ss = Some P \<and>
           observer ss = active_observers ?w P" if "s \<in> set (remove1 self (websockets h))" for s
      proof -
        from that d have "s \<in> set (websockets h)" "s \<noteq> self" by auto
        with listed(2)[OF h, of s] show ?thesis by simp
      qed
      with listed(1)[OF h] rest True show ?thesis unfolding h' by simp
    next
      case False
      with q have q': "active_handlers w Q = Some h'" by simp
      have "\<exists>ss. sockets ?w s = Some ss \<and>
           started_observer ss \<and> \<not> on_close_called ss \<and> path ss = Some Q \<and>
           observer ss = active_observers ?w Q" if "s \<in> set (websockets h')" for s
      proof -
        from that elsewhere[OF q' False] have "s \<noteq> self" by auto
        with listed(2)[OF q' that] show ?thesis by simp
      qed
      with listed(1)[OF q'] show ?thesis by blast
    qed
  qed
  moreover have "subscribed_ok ?w"
    unfolding subscribed_ok_def
  proof (intro allI impI)
    fix s ss' assume a: "sockets ?w s = Some ss'" "started_observer ss'" "\<not> on_close_called ss'"
    with S have ne: "s \<noteq> self" by auto
    with a have "sockets w s = Some ss'" by simp
    with sk a obtain Q h' where q: "path ss' = Some Q" "active_handlers w Q = Some h'" "s \<in> set (websockets h')"
      unfolding subscribed_ok_def by blast
    show "\<exists>Q h'. path ss' = Some Q \<and> active_handlers ?w Q = Some h' \<and> s \<in> set (websockets h')"
    proof (cases "Q = P")
      case True
      with q h ne show ?thesis by simp
    next
      case False
      with q show ?thesis by simp
    qed
  qed
  ultimately show ?thesis by (simp add: registry_ok_def)
qed

lemma teardown_ok:
  assumes ok: "registry_ok w" and s: "sockets w self = Some ss" "path ss = Some P"
    and h: "active_handlers w P = Some h" and rest: "remove1 self (websockets h) = []"
    and ob: "active_observers w P = Some ob"
    and S: "on_close_called S"
  shows "registry_ok (w\<lparr>active_handlers := (active_handlers w)(P := None),
             active_observers := (active_observers w)(P := None),
             observers := (observers w)[ob := (observers w ! ob)\<lparr>status := Stopped\<rparr>],
             sockets := (sockets w)(self \<mapsto> S)\<rparr>)" (is "registry_ok ?w")
proof -
  have hk: "handlers_ok w" and sk: "subscribed_ok w" and ok': "observers_ok w"
    using ok by (simp_all add: registry_ok_def)
  have listed: "websockets h' \<noteq> [] \<and> distinct (websockets h') \<and> root h' = Q \<and> options h' \<noteq> []"
    "\<And>s. s \<in> set (websockets h') \<Longrightarrow> \<exists>ss. sockets w s = Some ss \<and>
           started_observer ss \<and> \<not> on_close_called ss \<and> path ss = Some Q \<and>
           observer ss = active_observers w Q"
    if "active_handlers w Q = Some h'" for Q h'
    using hk that unfolding handlers_ok_def by blast+
  have elsewhere: "self \<notin> set (websockets h')" if "active_handlers w Q = Some h'" "Q \<noteq> P" for Q h'
    using listed(2)[OF that(1), of self] that(2) s by auto
  have reg: "ob' < length (observers w)" "observers w ! ob' = \<lparr>scheduled = [Q], status = Running\<rparr>"
    if "active_observers w Q = Some ob'" for Q ob'
    using ok' that unfolding observers_ok_def by blast+
  have other: "ob' \<noteq> ob" if "active_observers w Q = Some ob'" "Q \<noteq> P" for Q ob'
    using reg(2)[OF that(1)] reg(2)[OF ob] that(2) by auto
  have only: "websockets h = [self]"
  proof -
    from listed(1)[OF h] obtain x xs where "websockets h = x # xs" by (cases "websockets h") auto
    with rest show ?thesis by (auto split: if_splits)
  qed
  have "same_keys ?w" using ok by (auto simp: registry_ok_def same_keys_def)
  moreover have "observers_ok ?w"
  proof -
    have 1: "ob' < length (observers ?w) \<and>
        observers ?w ! ob' = \<lparr>scheduled = [Q], status = Running\<rparr>"
      if "active_observers ?w Q = Some ob'" for Q ob'
    proof -
      from that have q: "Q \<noteq> P" "active_observers w Q = Some ob'" by (auto split: if_splits)
      with reg[OF q(2)] other[OF q(2) q(1)] show ?thesis by simp
    qed
    have 2: "\<exists>Q. active_observers ?w Q = Some ob'"
      if "ob' < length (observers ?w)" "status (observers ?w ! ob') = Running" for ob'
    proof -
      from that have ne: "ob' \<noteq> ob" by (auto simp: nth_list_update)
      with that have "ob' < length (observers w)" "status (observers w ! ob') = Running" by auto
      with ok' obtain Q where Q: "active_observers w Q = Some ob'"
        unfolding observers_ok_def by blast
      with ne ob have "Q \<noteq> P" by auto
      with Q have "active_observers ?w Q = Some ob'" by simp
      then show ?thesis ..
    qed
    from 1 2 show ?thesis unfolding observers_ok_def by blast
  qed
  moreover have "handlers_ok ?w"
    unfolding handlers_ok_def
  proof (intro allI impI)
    fix Q h' assume q: "active_handlers ?w Q = Some h'"
    then have ne: "Q \<noteq> P" and q': "active_handlers w Q = Some h'" by (auto split: if_splits)
    have "\<exists>ss. sockets ?w s = Some ss \<and>
           started_observer ss \<and> \<not> on_close_called ss \<and> path ss = Some Q \<and>
           observer ss = active_observers ?w Q" if "s \<in> set (websockets h')" for s
    proof -
      from that elsewhere[OF q' ne] have "s \<noteq> self" by auto
      with listed(2)[OF q' that] ne show ?thesis by simp
    qed
    with listed(1)[OF q'] show "websockets h' \<noteq> [] \<and> distinct (websockets h') \<and> root h' = Q \<and> options h' \<noteq> [] \<and>
        (\<forall>s \<in> set (websockets h'). \<exists>ss. sockets ?w s = Some ss \<and>
           started_observer ss \<and> \<not> on_close_called ss \<and> path ss = Some Q \<and>
           observer ss = active_observers ?w Q)" by blast
  qed
  moreover have "subscribed_ok ?w"
    unfolding subscribed_ok_def
  proof (intro allI impI)
    fix s ss' assume a: "sockets ?w s = Some ss'" "started_observer ss'" "\<not> on_close_called ss'"
    with S have ne: "s \<noteq> self" by auto
    with a have "sockets w s = Some ss'" by simp
    with sk a obtain Q h' where q: "path ss' = Some Q" "active_handlers w Q = Some h'" "s \<in> set (websockets h')"
      unfolding subscribed_ok_def by blast
    have "Q \<noteq> P" using q h only ne by auto
    with q show "\<exists>Q h'. path ss' = Some Q \<and> active_handlers ?w Q = Some h' \<and> s \<in> set (websockets h')"
      by simp
  qed
  ultimately show ?thesis by (simp add: registry_ok_def)
qed

lemma on_connection_close_registry_ok:
  assumes ok: "registry_ok w" and s: "sockets w self = Some ss" "\<not> on_close_called ss"
  shows "registry_ok (state_of (on_connection_close self w))"
proof (cases "started_observer ss")
  case False
  show ?thesis unfolding on_connection_close_idle[OF s(1) False]
    using close_idle_ok[OF ok s(1) False] False by simp
next
  case True
  with ok s obtain P h where P: "path ss = Some P" "active_handlers w P = Some h"
    "self \<in> set (websockets h)"
    unfolding registry_ok_def subscribed_ok_def by blast
  have rm: "remove_socket h self = h\<lparr>websockets := remove1 self (websockets h)\<rparr>"
    using P(3) by (simp add: remove_socket_def)
  show ?thesis
  proof (cases "remove1 self (websockets h) = []")
    case False
    then have "websockets (remove_socket h self) \<noteq> []" by (simp add: rm)
    from on_connection_close_others[OF s(1) True P(1,2) this]
    show ?thesis using leave_ok[OF ok s(1) P(1,2) False] by (simp add: rm)
  next
    case empty: True
    then have e: "websockets (remove_socket h self) = []" by (simp add: rm)
    from ok P(2) obtain ob where ob: "active_observers w P = Some ob"
      by (auto simp: registry_ok_def same_keys_def)
    from ok P(2,3) s(1) have "observer ss = active_observers w P"
      unfolding registry_ok_def handlers_ok_def by fastforce
    with ob have obs: "observer ss = Some ob" by simp
    from ok ob have lt: "ob < length (observers w)"
      unfolding registry_ok_def observers_ok_def by blast
    from ob have "active_observers w P \<noteq> None" by simp
    from on_connection_close_last[OF s(1) True P(1,2) e obs this] lt
    show ?thesis using teardown_ok[OF ok s(1) P(1,2) empty ob] by simp
  qed
qed

text \<open>
  So the registry is consistent in every state the server reaches.
\<close>

lemma reachable_registry_ok: "reachable w \<Longrightarrow> registry_ok w"
proof (induction rule: reachable.induct)
  case init
  show ?case
    by (simp add: registry_ok_def same_keys_def handlers_ok_def subscribed_ok_def
        observers_ok_def init_world_def)
next
  case (connect w self env kw_path enable disable)
  then show ?case by (simp add: ws_open_registry_ok)
next
  case (disconnect w self ss)
  then show ?case by (simp add: on_connection_close_registry_ok)
next
  case (fs_event w P event_handler re event)
  then show ?case using same_but_sent_registry_ok[OF dispatch_same_but_sent] by blast
qed

section \<open>Fan-out and filtering\<close>

lemma writable_deliver: "writable (deliver m w a) s = writable w s"
  by (auto simp: writable_def deliver_def update_socket_def split: option.splits)

text \<open>
  The loop of \<^verbatim>\<open>write_msg\<close> delivers to the longest writable prefix of the list.
\<close>

lemma write_message_eq:
  "write_message s m w = (if writable w s then Done (deliver m w s) else Raised WebSocketClosedError w)"
  by (auto simp: write_message_def writable_def deliver_def update_socket_def split: option.splits)

lemma write_all_eq:
  "write_all ws m w =
     (if list_all (writable w) ws then Done (foldl (deliver m) w ws)
      else Raised WebSocketClosedError (foldl (deliver m) w (takeWhile (writable w) ws)))"
proof (induction ws arbitrary: w)
  case Nil
  show ?case by simp
next
  case (Cons a ws)
  have eq: "writable (deliver m w a) = writable w"
    by (rule ext) (simp add: writable_deliver)
  show ?case
    by (simp add: write_message_eq Cons.IH eq)
qed

lemma inbox_deliver:
  "inbox (deliver m w a) s = (if s = a \<and> sockets w a \<noteq> None then inbox w s @ [m] else inbox w s)"
  by (auto simp: inbox_def deliver_def update_socket_def split: option.splits)

lemma inbox_foldl_deliver:
  "list_all (writable w) ws \<Longrightarrow>
   inbox (foldl (deliver m) w ws) s = inbox w s @ replicate (count_list ws s) m"
proof (induction ws arbitrary: w)
  case Nil
  show ?case by simp
next
  case (Cons a ws)
  have eq: "writable (deliver m w a) = writable w"
    by (rule ext) (simp add: writable_deliver)
  from Cons.prems have "writable w a" and rest: "list_all (writable (deliver m w a)) ws"
    by (simp_all add: eq)
  then have a: "sockets w a \<noteq> None"
    by (auto simp: writable_def split: option.splits)
  show ?case
  proof (cases "s = a")
    case True
    have "inbox w a @ m # replicate (count_list ws a) m = inbox w a @ replicate (Suc (count_list ws a)) m"
      by simp
    with True Cons.IH[OF rest] a show ?thesis
      by (simp add: inbox_deliver del: replicate_Suc)
  next
    case False
    with Cons.IH[OF rest] show ?thesis by (simp add: inbox_deliver)
  qed
qed

lemma deliver_registry:
  "active_handlers (deliver m w a) = active_handlers w \<and>
   active_observers (deliver m w a) = active_observers w \<and>
   observers (deliver m w a) = observers w"
  by (simp add: deliver_def update_socket_def split: option.splits)

text \<open>
  The four methods together: an event is dropped, or one dictionary is handed to
  \<^verbatim>\<open>write_msg\<close>.
\<close>

lemma dispatch_drop:
  "token ev \<notin> set (options h) \<Longrightarrow> dispatch re h ev w = Done w"
  by (cases ev) (auto simp: on_created_def on_modified_def on_deleted_def on_moved_def)

lemma sub_dotted: "dotted pattern \<Longrightarrow> sub re pattern [] s = Inr (replace_all pattern [] s)"
  by (simp add: sub_def)

lemma unclosed_group_not_dotted: "unclosed_group pattern \<Longrightarrow> \<not> dotted pattern"
proof
  assume u: "unclosed_group pattern" and d: "dotted pattern"
  from u have "count_list pattern (CHR ''('') \<noteq> 0" by (simp add: unclosed_group_def)
  then have m: "CHR ''('' \<in> set pattern" by (simp add: count_list_0_iff)
  from d have "\<forall>c \<in> set pattern. c = CHR ''.'' \<or> c \<notin> set special_characters"
    by (simp add: dotted_def list_all_iff)
  with m have "CHR ''('' = CHR ''.'' \<or> CHR ''('' \<notin> set special_characters" by blast
  then show False by (simp add: special_characters_def)
qed

lemma sub_unclosed_group: "unclosed_group pattern \<Longrightarrow> sub re pattern [] s = Inl re_error"
  by (simp add: sub_def unclosed_group_not_dotted)

lemma dispatch_forward:
  assumes "token ev \<in> set (options h)" "dotted (root h)"
  shows "\<exists>d. dispatch re h ev w = write_msg h (Dumps d) w \<and> map fst d = message_fields ev \<and>
     map_of d ''event_type'' = Some (JStr (event_type ev)) \<and>
     map_of d ''is_directory'' = Some (JBool (is_directory ev)) \<and>
     map_of d ''src_path'' = Some (JStr (replace_all (root h) [] (src_path ev))) \<and>
     (\<forall>q. map_of d ''dest_path'' = Some q \<longrightarrow>
        q = JStr (replace_all (root h) [] (dest_path ev)))"
proof (cases ev)
  case (Created d p)
  let ?d = "[(''event_type'', JStr ''created''), (''is_directory'', JBool d),
             (''src_path'', JStr (replace_all (root h) [] p))]"
  from assms Created have "dispatch re h ev w = write_msg h (Dumps ?d) w"
    by (cases d) (simp_all add: on_created_def sub_dotted)
  with Created show ?thesis by (intro exI[of _ ?d]) simp
next
  case (Modified d p)
  let ?d = "[(''event_type'', JStr ''modified''), (''is_directory'', JBool d),
             (''src_path'', JStr (replace_all (root h) [] p))]"
  from assms Modified have "dispatch re h ev w = write_msg h (Dumps ?d) w"
    by (cases d) (simp_all add: on_modified_def sub_dotted)
  with Modified show ?thesis by (intro exI[of _ ?d]) simp
next
  case (Deleted d p)
  let ?d = "[(''event_type'', JStr ''deleted''), (''is_directory'', JBool d),
             (''src_path'', JStr (replace_all (root h) [] p))]"
  from assms Deleted have "dispatch re h ev w = write_msg h (Dumps ?d) w"
    by (cases d) (simp_all add: on_deleted_def sub_dotted)
  with Deleted show ?thesis by (intro exI[of _ ?d]) simp
next
  case (Moved d p q)
  let ?d = "[(''event_type'', JStr ''moved''), (''is_directory'', JBool d),
             (''src_path'', JStr (replace_all (root h) [] p)),
             (''dest_path'', JStr (replace_all (root h) [] q))]"
  from assms Moved have "dispatch re h ev w = write_msg h (Dumps ?d) w"
    by (cases d) (simp_all add: on_moved_def sub_dotted)
  with Moved show ?thesis by (intro exI[of _ ?d]) simp
qed

lemma dispatch_re_error:
  assumes "token ev \<in> set (options h)" "unclosed_group (root h)"
  shows "dispatch re h ev w = Raised re_error w"
proof (cases ev)
  case (Created d p)
  with assms show ?thesis by (cases d) (simp_all add: on_created_def sub_unclosed_group)
next
  case (Modified d p)
  with assms show ?thesis by (cases d) (simp_all add: on_modified_def sub_unclosed_group)
next
  case (Deleted d p)
  with assms show ?thesis by (cases d) (simp_all add: on_deleted_def sub_unclosed_group)
next
  case (Moved d p q)
  with assms show ?thesis by (cases d) (simp_all add: on_moved_def sub_unclosed_group)
qed

text \<open>
  Where the root occurs in front of the path and nowhere after, \<^verbatim>\<open>re.sub\<close> does leave
  the rest of the path.
\<close>

lemma literal_dotted: "literal pattern \<Longrightarrow> dotted pattern"
  by (simp add: literal_def dotted_def list_all_iff)

lemma matches_literal: "literal pattern \<Longrightarrow> matches pattern t \<longleftrightarrow> t = pattern"
proof (induction pattern arbitrary: t)
  case Nil
  show ?case by (auto simp: matches_def)
next
  case (Cons c cs)
  from Cons.prems have c: "c \<noteq> CHR ''.''" and cs: "literal cs"
    by (auto simp: literal_def special_characters_def)
  from Cons.IH[OF cs] have ih: "\<And>t. matches cs t \<longleftrightarrow> t = cs" .
  show ?case
  proof (cases t)
    case Nil
    then show ?thesis by (simp add: matches_def)
  next
    case (Cons x xs)
    have "matches (c # cs) (x # xs) \<longleftrightarrow> c = x \<and> matches cs xs"
      using c by (simp add: matches_def)
    with ih[of xs] Cons show ?thesis by auto
  qed
qed

lemma replace_all_no_occurrence:
  assumes "literal pattern" "pattern \<noteq> []" "\<forall>i. take (length pattern) (drop i s) \<noteq> pattern"
  shows "replace_all pattern repl s = s"
  using assms(3)
proof (induction s)
  case Nil
  with assms(1,2) show ?case by (simp add: replace_all.simps matches_literal)
next
  case (Cons c cs)
  from Cons.prems have "take (length pattern) (drop 0 (c # cs)) \<noteq> pattern" by blast
  then have 0: "\<not> matches pattern (take (length pattern) (c # cs))"
    using assms(1) by (simp add: matches_literal)
  have "take (length pattern) (drop i cs) \<noteq> pattern" for i
    using Cons.prems[rule_format, of "Suc i"] by simp
  then have "replace_all pattern repl cs = cs" using Cons.IH by blast
  with 0 assms(2) show ?case by (simp add: replace_all.simps[of pattern repl "c # cs"])
qed

lemma sub_strips_single_prefix:
  assumes "literal r" "r \<noteq> []" "\<forall>i. take (length r) (drop i rest) \<noteq> r"
  shows "sub re r [] (r @ rest) = Inr rest"
proof -
  have "matches r (take (length r) (r @ rest))" using assms(1) by (simp add: matches_literal)
  then have "replace_all r [] (r @ rest) = replace_all r [] rest"
    using assms(2) by (simp add: replace_all.simps[of r "[]" "r @ rest"])
  with assms show ?thesis by (simp add: sub_dotted literal_dotted replace_all_no_occurrence)
qed

lemma dotted_watched: "dotted ''/watched''"
  by (simp add: dotted_def special_characters_def)

lemma same_but_sent_fields:
  "same_but_sent w w' \<Longrightarrow>
   active_handlers w' = active_handlers w \<and> active_observers w' = active_observers w \<and>
   observers w' = observers w"
  by (simp add: same_but_sent_def)

text \<open>
  The filter where the root is a pattern of ordinary characters and dots: an event is
  forwarded exactly when its token is among the options, with the keys of its kind,
  to every subscriber.
\<close>

lemma event_filter_dotted:
  "(token ev \<notin> set (options h) \<longrightarrow> dispatch re h ev w = Done w) \<and>
   (token ev \<in> set (options h) \<and> dotted (root h) \<longrightarrow>
      (\<exists>d. dispatch re h ev w = write_msg h (Dumps d) w \<and>
           map fst d = message_fields ev \<and>
           map_of d ''event_type'' = Some (JStr (event_type ev)) \<and>
           map_of d ''is_directory'' = Some (JBool (is_directory ev)) \<and>
           (list_all (writable w) (websockets h) \<longrightarrow>
              (\<forall>s. inbox (state_of (dispatch re h ev w)) s =
                   inbox w s @ replicate (count_list (websockets h) s) (Dumps d)))))"
proof (intro conjI impI)
  assume "token ev \<notin> set (options h)"
  then show "dispatch re h ev w = Done w" by (rule dispatch_drop)
next
  assume a: "token ev \<in> set (options h) \<and> dotted (root h)"
  then obtain d where d: "dispatch re h ev w = write_msg h (Dumps d) w"
    "map fst d = message_fields ev"
    "map_of d ''event_type'' = Some (JStr (event_type ev))"
    "map_of d ''is_directory'' = Some (JBool (is_directory ev))"
    using dispatch_forward[of ev h re w] by blast
  have "inbox (state_of (dispatch re h ev w)) s =
          inbox w s @ replicate (count_list (websockets h) s) (Dumps d)"
    if "list_all (writable w) (websockets h)" for s
    using that by (simp add: d(1) write_msg_def write_all_eq inbox_foldl_deliver)
  with d show "\<exists>d. dispatch re h ev w = write_msg h (Dumps d) w \<and>
           map fst d = message_fields ev \<and>
           map_of d ''event_type'' = Some (JStr (event_type ev)) \<and>
           map_of d ''is_directory'' = Some (JBool (is_directory ev)) \<and>
           (list_all (writable w) (websockets h) \<longrightarrow>
              (\<forall>s. inbox (state_of (dispatch re h ev w)) s =
                   inbox w s @ replicate (count_list (websockets h) s) (Dumps d)))"
    by blast
qed

section \<open>Monitors and repeated subscription\<close>

text \<open>
  The monitors of a path are read off the registry.
\<close>

lemma filter_eq_upt: "a < n \<Longrightarrow> filter (\<lambda>x. a = x) [0..<n] = [a]"
proof (induction n)
  case 0
  then show ?case by simp
next
  case (Suc n)
  show ?case
  proof (cases "a = n")
    case True
    have "filter (\<lambda>x. n = x) [0..<n] = []" by (auto simp: filter_empty_conv)
    with True show ?thesis by simp
  next
    case False
    with Suc show ?thesis by simp
  qed
qed

lemma monitors_registered:
  assumes "observers_ok w"
  shows "monitors w Q = (case active_observers w Q of None \<Rightarrow> [] | Some ob \<Rightarrow> [ob])"
proof -
  have reg: "ob < length (observers w)" "observers w ! ob = \<lparr>scheduled = [P], status = Running\<rparr>"
    if "active_observers w P = Some ob" for P ob
    using assms that unfolding observers_ok_def by blast+
  have iff: "(status (observers w ! ob) = Running \<and> Q \<in> set (scheduled (observers w ! ob)))
      \<longleftrightarrow> active_observers w Q = Some ob" if "ob < length (observers w)" for ob
  proof
    assume a: "status (observers w ! ob) = Running \<and> Q \<in> set (scheduled (observers w ! ob))"
    with assms that obtain P where P: "active_observers w P = Some ob"
      unfolding observers_ok_def by blast
    from reg(2)[OF P] a have "Q = P" by simp
    with P show "active_observers w Q = Some ob" by simp
  next
    assume "active_observers w Q = Some ob"
    from reg(2)[OF this]
    show "status (observers w ! ob) = Running \<and> Q \<in> set (scheduled (observers w ! ob))" by simp
  qed
  have m: "monitors w Q = filter (\<lambda>ob. active_observers w Q = Some ob) [0..<length (observers w)]"
    unfolding monitors_def by (rule filter_cong) (auto simp: iff)
  show ?thesis
  proof (cases "active_observers w Q")
    case None
    then show ?thesis by (simp add: m)
  next
    case (Some a)
    have "filter (\<lambda>ob. a = ob) [0..<length (observers w)] = [a]"
      by (rule filter_eq_upt) (rule reg(1)[OF Some])
    with Some show ?thesis by (simp add: m)
  qed
qed

text \<open>
  After the first subscription to a path, the later ones only extend the list.
\<close>

lemma open_all_attach:
  assumes "P = os_path_join (ARGUS_ROOT env) p" "path_exists env P"
    "active_observers w P = Some ob" "active_handlers w P = Some h"
  shows "observers (open_all env p rest w) = observers w \<and>
     active_observers (open_all env p rest w) = active_observers w \<and>
     active_handlers (open_all env p rest w) =
       (active_handlers w)(P \<mapsto> h\<lparr>websockets := websockets h @ map fst rest\<rparr>)"
  using assms(3,4)
proof (induction rest arbitrary: w h)
  case Nil
  then show ?case by (auto simp: fun_upd_idem)
next
  case (Cons r rest)
  obtain self enable disable where r: "r = (self, enable, disable)" by (cases r) auto
  let ?h = "h\<lparr>websockets := websockets h @ [self]\<rparr>"
  let ?w = "w\<lparr>active_handlers := (active_handlers w)(P \<mapsto> ?h),
             sockets := (sockets w)(self \<mapsto>
                \<lparr>started_observer = True, observer = Some ob, path = Some P,
                 ws_connection = True, on_close_called = False, sent = []\<rparr>)\<rparr>"
  have step: "ws_open env self (Some p) enable disable w = Done ?w"
    by (rule ws_open_attach[OF assms(1,2) Cons.prems])
  have "active_observers ?w P = Some ob" "active_handlers ?w P = Some ?h"
    using Cons.prems by simp_all
  from Cons.IH[OF this] show ?case by (auto simp: r step fun_eq_iff)
qed

lemma open_all_first:
  assumes "P = os_path_join (ARGUS_ROOT env) p" "path_exists env P" "observer_can_start env"
    "active_observers w P = None" "define_options enable disable \<noteq> []"
  shows "observers (open_all env p ((self, enable, disable) # rest) w) =
       observers w @ [\<lparr>scheduled = [P], status = Running\<rparr>] \<and>
     active_observers (open_all env p ((self, enable, disable) # rest) w) =
       (active_observers w)(P \<mapsto> length (observers w)) \<and>
     active_handlers (open_all env p ((self, enable, disable) # rest) w) =
       (active_handlers w)(P \<mapsto>
          \<lparr>websockets = self # map fst rest, root = P, options = define_options enable disable\<rparr>)"
proof -
  let ?h = "\<lparr>websockets = [self], root = P, options = define_options enable disable\<rparr>"
  let ?w = "w\<lparr>active_handlers := (active_handlers w)(P \<mapsto> ?h),
             active_observers := (active_observers w)(P \<mapsto> length (observers w)),
             observers := observers w @ [\<lparr>scheduled = [P], status = Running\<rparr>],
             sockets := (sockets w)(self \<mapsto>
                \<lparr>started_observer = True, observer = Some (length (observers w)), path = Some P,
                 ws_connection = True, on_close_called = False, sent = []\<rparr>)\<rparr>"
  have step: "ws_open env self (Some p) enable disable w = Done ?w"
    by (rule ws_open_create[OF assms(1,2,4,5,3)])
  have "active_observers ?w P = Some (length (observers w))" "active_handlers ?w P = Some ?h"
    by simp_all
  from open_all_attach[OF assms(1,2) this, of rest] show ?thesis by (simp add: step)
qed

lemma example_path: "os_path_join (ARGUS_ROOT example_os) ''a'' = ''/watched/a''"
  by (simp add: os_path_join_def example_os_def)

text \<open>
  The two tables keep the same keys, from any state.
\<close>

lemma initiation_handler_same_keys:
  assumes "dom (active_handlers w) = dom (active_observers w)"
  shows "dom (active_handlers (state_of (initiation_handler env self kw_path enable disable w))) =
         dom (active_observers (state_of (initiation_handler env self kw_path enable disable w)))"
proof (cases kw_path)
  case None
  with assms show ?thesis by (simp add: initiation_handler_def)
next
  case (Some p)
  define P where "P = os_path_join (ARGUS_ROOT env) p"
  have in_dom: "P \<in> dom (active_handlers w)" if "active_observers w P \<noteq> None"
    using assms that by auto
  show ?thesis
    using assms in_dom unfolding Some initiation_handler_def P_def[symmetric]
    by (auto simp: Let_def sock_defs obs_defs add_socket_def split: option.splits outcome.splits if_splits)
qed

lemma on_close_same_keys:
  assumes "dom (active_handlers w) = dom (active_observers w)"
  shows "dom (active_handlers (state_of (on_close self w))) =
         dom (active_observers (state_of (on_close self w)))"
  using assms unfolding on_close_def
  by (auto simp: Let_def obs_defs split: option.splits if_splits)

lemma example_subscribed_eq:
  "example_subscribed =
     \<lparr>active_handlers = [''/watched/a'' \<mapsto>
        \<lparr>websockets = [0], root = ''/watched/a'', options = default_options\<rparr>],
      active_observers = [''/watched/a'' \<mapsto> 0],
      observers = [\<lparr>scheduled = [''/watched/a''], status = Running\<rparr>],
      sockets = [0 \<mapsto> \<lparr>started_observer = True, observer = Some 0, path = Some ''/watched/a'',
                 ws_connection = True, on_close_called = False, sent = []\<rparr>]\<rparr>"
proof -
  have "ws_open example_os 0 (Some ''a'') [] [] init_world =
     Done (init_world\<lparr>active_handlers := (active_handlers init_world)(''/watched/a'' \<mapsto>
                \<lparr>websockets = [0], root = ''/watched/a'', options = define_options [] []\<rparr>),
             active_observers := (active_observers init_world)(''/watched/a'' \<mapsto> length (observers init_world)),
             observers := observers init_world @ [\<lparr>scheduled = [''/watched/a''], status = Running\<rparr>],
             sockets := (sockets init_world)(0 \<mapsto>
                \<lparr>started_observer = True, observer = Some (length (observers init_world)),
                 path = Some ''/watched/a'',
                 ws_connection = True, on_close_called = False, sent = []\<rparr>)\<rparr>)"
    by (rule ws_open_create)
       (simp_all add: example_path, simp_all add: example_os_def init_world_def define_options_def
          default_options_def)
  then show ?thesis
    by (simp add: example_subscribed_def init_world_def define_options_def)
qed

lemma example_subscribed_reachable: "reachable example_subscribed"
  unfolding example_subscribed_def
  by (rule reachable.connect[OF reachable.init]) (simp add: init_world_def)

text \<open>
  A subscription to a watched path does not depend on its arguments, and the socket
  attached receives what the handler forwards.
\<close>

lemma attach_any_options:
  assumes "reachable w" "sockets w self = None" "P = os_path_join (ARGUS_ROOT env) p"
    "path_exists env P" "active_observers w P = Some ob"
  shows "\<exists>h. active_handlers w P = Some h \<and> root h = P \<and>
     ws_open env self (Some p) enable disable w =
       Done (w\<lparr>active_handlers :=
                 (active_handlers w)(P \<mapsto> h\<lparr>websockets := websockets h @ [self]\<rparr>),
               sockets := (sockets w)(self \<mapsto>
                 \<lparr>started_observer = True, observer = Some ob, path = Some P,
                  ws_connection = True, on_close_called = False, sent = []\<rparr>)\<rparr>) \<and>
     ws_open env self (Some p) enable disable w = ws_open env self (Some p) enable' disable' w"
proof -
  have ok: "registry_ok w" using assms(1) by (rule reachable_registry_ok)
  with assms(5) obtain h where h: "active_handlers w P = Some h"
    by (auto simp: registry_ok_def same_keys_def)
  from ok h have root: "root h = P" unfolding registry_ok_def handlers_ok_def by blast
  note run = ws_open_attach[OF assms(3,4,5) h]
  show ?thesis using h root run[of self enable disable] run[of self enable' disable']
    by (intro exI[of _ h]) simp
qed

lemma attached_socket_receives:
  assumes "token ev \<in> set (options h)" "dotted (root h)"
    "list_all (writable w) (websockets h @ [self])"
  shows "\<exists>d. map fst d = message_fields ev \<and>
     inbox (state_of (dispatch re (h\<lparr>websockets := websockets h @ [self]\<rparr>) ev w)) self =
       inbox w self @ replicate (Suc (count_list (websockets h) self)) (Dumps d)"
proof -
  let ?h = "h\<lparr>websockets := websockets h @ [self]\<rparr>"
  from assms have "token ev \<in> set (options ?h) \<and> dotted (root ?h)" by simp
  with event_filter_dotted[of ev ?h re w] assms(3)
  obtain d where d: "map fst d = message_fields ev"
    "\<forall>s. inbox (state_of (dispatch re ?h ev w)) s =
         inbox w s @ replicate (count_list (websockets ?h) s) (Dumps d)"
    by auto
  from d(2) have "inbox (state_of (dispatch re ?h ev w)) self =
       inbox w self @ replicate (count_list (websockets ?h) self) (Dumps d)" by blast
  then have "inbox (state_of (dispatch re ?h ev w)) self =
       inbox w self @ replicate (Suc (count_list (websockets h) self)) (Dumps d)" by simp
  with d(1) show ?thesis by blast
qed

lemma group_path: "os_path_join (ARGUS_ROOT group_os) ''a(b'' = ''/watched/a(b''"
  by (simp add: os_path_join_def group_os_def)

lemma group_subscribed_eq:
  "group_subscribed =
     \<lparr>active_handlers = [''/watched/a(b'' \<mapsto>
        \<lparr>websockets = [0], root = ''/watched/a(b'', options = default_options\<rparr>],
      active_observers = [''/watched/a(b'' \<mapsto> 0],
      observers = [\<lparr>scheduled = [''/watched/a(b''], status = Running\<rparr>],
      sockets = [0 \<mapsto> \<lparr>started_observer = True, observer = Some 0, path = Some ''/watched/a(b'',
                 ws_connection = True, on_close_called = False, sent = []\<rparr>]\<rparr>"
proof -
  have "ws_open group_os 0 (Some ''a(b'') [] [] init_world =
     Done (init_world\<lparr>active_handlers := (active_handlers init_world)(''/watched/a(b'' \<mapsto>
                \<lparr>websockets = [0], root = ''/watched/a(b'', options = define_options [] []\<rparr>),
             active_observers := (active_observers init_world)(''/watched/a(b'' \<mapsto> length (observers init_world)),
             observers := observers init_world @ [\<lparr>scheduled = [''/watched/a(b''], status = Running\<rparr>],
             sockets := (sockets init_world)(0 \<mapsto>
                \<lparr>started_observer = True, observer = Some (length (observers init_world)),
                 path = Some ''/watched/a(b'',
                 ws_connection = True, on_close_called = False, sent = []\<rparr>)\<rparr>)"
    by (rule ws_open_create)
       (simp_all add: group_path, simp_all add: group_os_def init_world_def define_options_def
          default_options_def)
  then show ?thesis
    by (simp add: group_subscribed_def init_world_def define_options_def)
qed

lemma group_attached_eq:
  "group_attached =
     \<lparr>active_handlers = [''/watched/a(b'' \<mapsto> group_handler],
      active_observers = [''/watched/a(b'' \<mapsto> 0],
      observers = [\<lparr>scheduled = [''/watched/a(b''], status = Running\<rparr>],
      sockets = [0 \<mapsto> \<lparr>started_observer = True, observer = Some 0, path = Some ''/watched/a(b'',
                 ws_connection = True, on_close_called = False, sent = []\<rparr>,
                 1 \<mapsto> \<lparr>started_observer = True, observer = Some 0, path = Some ''/watched/a(b'',
                 ws_connection = True, on_close_called = False, sent = []\<rparr>]\<rparr>"
proof -
  let ?h = "\<lparr>websockets = [0], root = ''/watched/a(b'', options = default_options\<rparr>"
  have "ws_open group_os 1 (Some ''a(b'') [] [''all''] group_subscribed =
     Done (group_subscribed\<lparr>active_handlers := (active_handlers group_subscribed)
               (''/watched/a(b'' \<mapsto> ?h\<lparr>websockets := websockets ?h @ [1]\<rparr>),
             sockets := (sockets group_subscribed)(1 \<mapsto>
                \<lparr>started_observer = True, observer = Some 0, path = Some ''/watched/a(b'',
                 ws_connection = True, on_close_called = False, sent = []\<rparr>)\<rparr>)"
    by (rule ws_open_attach)
       (simp_all add: group_path, simp_all add: group_os_def group_subscribed_eq)
  then show ?thesis
    by (simp add: group_attached_def group_subscribed_eq group_handler_def)
qed

lemma group_unclosed: "unclosed_group ''/watched/a(b''"
  by (simp add: unclosed_group_def special_characters_def)

lemma ws_open_sockets:
  "sockets (state_of (ws_open env self kw_path enable disable w)) s = None \<longleftrightarrow>
   sockets w s = None \<and> s \<noteq> self"
proof (cases kw_path)
  case None
  then show ?thesis by (simp add: ws_open_no_path)
next
  case (Some p)
  define P where "P = os_path_join (ARGUS_ROOT env) p"
  show ?thesis
  proof (cases "path_exists env P")
    case False
    show ?thesis unfolding Some ws_open_missing[OF P_def False] by simp
  next
    case exists: True
    show ?thesis
    proof (cases "active_observers w P")
      case ob: (Some ob)
      show ?thesis
      proof (cases "active_handlers w P")
        case None
        show ?thesis unfolding Some ws_open_attach_KeyError[OF P_def exists ob None] by simp
      next
        case h: (Some h)
        show ?thesis unfolding \<open>kw_path = Some p\<close> ws_open_attach[OF P_def exists ob h] by simp
      qed
    next
      case None
      show ?thesis
      proof (cases "define_options enable disable = []")
        case True
        show ?thesis unfolding Some ws_open_no_options[OF P_def exists None True] by simp
      next
        case opts: False
        show ?thesis
        proof (cases "observer_can_start env")
          case True
          show ?thesis unfolding Some ws_open_create[OF P_def exists None opts True] by simp
        next
          case False
          show ?thesis unfolding Some ws_open_OSError[OF P_def exists None opts False] by simp
        qed
      qed
    qed
  qed
qed

lemma open_all_reachable:
  assumes "reachable w" "distinct (map fst reqs)" "\<forall>s \<in> set (map fst reqs). sockets w s = None"
  shows "reachable (open_all env p reqs w)"
  using assms
proof (induction reqs arbitrary: w)
  case Nil
  then show ?case by simp
next
  case (Cons r reqs)
  obtain self enable disable where r: "r = (self, enable, disable)" by (cases r) auto
  let ?w = "state_of (ws_open env self (Some p) enable disable w)"
  from Cons.prems r have fresh: "sockets w self = None" by simp
  have 1: "reachable ?w" by (rule reachable.connect[OF Cons.prems(1) fresh])
  have 2: "distinct (map fst reqs)" using Cons.prems(2) by simp
  have 3: "\<forall>s \<in> set (map fst reqs). sockets ?w s = None"
    using Cons.prems(2,3) r by (auto simp: ws_open_sockets)
  from Cons.IH[OF 1 2 3] show ?case by (simp add: r)
qed

section \<open>The properties\<close>

text \<open>
  C1. In every state the server reaches, the monitors of a path \<open>Q\<close> (the running
  observers with \<open>Q\<close> scheduled) are exactly the observer registered for \<open>Q\<close>, if
  there is one: at most one monitor, and at most one handler since the registry is a
  dictionary. And when the sessions \<open>self\<close> and then those of \<open>rest\<close> subscribe to the
  same existing path \<open>P\<close>, not watched before, the first with options that are not
  empty and an observer that starts: over all these subscriptions exactly one observer
  is created, it runs with \<open>P\<close> scheduled and is the one registered, and the handler
  registered for \<open>P\<close> lists the sockets in the order they came, one entry for each
  subscription. If the first state is one the server reaches and the sockets are new,
  the state after the subscriptions is one the server reaches, too.
\<close>

theorem one_monitor_per_path:
  "(reachable w \<longrightarrow>
      (\<forall>Q. monitors w Q = (case active_observers w Q of None \<Rightarrow> [] | Some ob \<Rightarrow> [ob]) \<and>
           length (monitors w Q) \<le> 1)) \<and>
   (P = os_path_join (ARGUS_ROOT env) p \<and> path_exists env P \<and> observer_can_start env \<and>
    active_observers w P = None \<and> define_options enable disable \<noteq> [] \<longrightarrow>
      observers (open_all env p ((self, enable, disable) # rest) w) =
        observers w @ [\<lparr>scheduled = [P], status = Running\<rparr>] \<and>
      active_observers (open_all env p ((self, enable, disable) # rest) w) =
        (active_observers w)(P \<mapsto> length (observers w)) \<and>
      active_handlers (open_all env p ((self, enable, disable) # rest) w) =
        (active_handlers w)(P \<mapsto>
           \<lparr>websockets = self # map fst rest, root = P, options = define_options enable disable\<rparr>) \<and>
      length (self # map fst rest) = length ((self, enable, disable) # rest)) \<and>
   (reachable w \<and> distinct (self # map fst rest) \<and>
    (\<forall>s \<in> set (self # map fst rest). sockets w s = None) \<longrightarrow>
      reachable (open_all env p ((self, enable, disable) # rest) w))"
proof (intro conjI impI allI)
  fix Q assume "reachable w"
  then have "observers_ok w" using reachable_registry_ok by (simp add: registry_ok_def)
  then have m: "monitors w Q = (case active_observers w Q of None \<Rightarrow> [] | Some ob \<Rightarrow> [ob])"
    by (rule monitors_registered)
  show "monitors w Q = (case active_observers w Q of None \<Rightarrow> [] | Some ob \<Rightarrow> [ob])" by (rule m)
  show "length (monitors w Q) \<le> 1" unfolding m by (simp split: option.splits)
next
  assume a: "P = os_path_join (ARGUS_ROOT env) p \<and> path_exists env P \<and> observer_can_start env \<and>
    active_observers w P = None \<and> define_options enable disable \<noteq> []"
  then have f: "observers (open_all env p ((self, enable, disable) # rest) w) =
       observers w @ [\<lparr>scheduled = [P], status = Running\<rparr>] \<and>
     active_observers (open_all env p ((self, enable, disable) # rest) w) =
       (active_observers w)(P \<mapsto> length (observers w)) \<and>
     active_handlers (open_all env p ((self, enable, disable) # rest) w) =
       (active_handlers w)(P \<mapsto>
          \<lparr>websockets = self # map fst rest, root = P, options = define_options enable disable\<rparr>)"
    using open_all_first[of P env p w enable disable self rest] by blast
  from f show "observers (open_all env p ((self, enable, disable) # rest) w) =
        observers w @ [\<lparr>scheduled = [P], status = Running\<rparr>]" by blast
  from f show "active_observers (open_all env p ((self, enable, disable) # rest) w) =
        (active_observers w)(P \<mapsto> length (observers w))" by blast
  from f show "active_handlers (open_all env p ((self, enable, disable) # rest) w) =
        (active_handlers w)(P \<mapsto>
           \<lparr>websockets = self # map fst rest, root = P, options = define_options enable disable\<rparr>)"
    by blast
  show "length (self # map fst rest) = length ((self, enable, disable) # rest)" by simp
next
  assume "reachable w \<and> distinct (self # map fst rest) \<and>
    (\<forall>s \<in> set (self # map fst rest). sockets w s = None)"
  then show "reachable (open_all env p ((self, enable, disable) # rest) w)"
    using open_all_reachable[of w "(self, enable, disable) # rest" env p] by simp
qed

text \<open>
  Three sessions subscribe to \<^verbatim>\<open>/watched/a\<close> from the empty registry; the third asks
  for no option at all.
\<close>

theorem one_monitor_per_path_witness:
  "monitors init_world ''/watched/a'' = [] \<and>
   observers (open_all example_os ''a''
       [(0, [], []), (1, [''CRfile''], []), (2, [], [''all''])] init_world) =
     [\<lparr>scheduled = [''/watched/a''], status = Running\<rparr>] \<and>
   active_handlers (open_all example_os ''a''
       [(0, [], []), (1, [''CRfile''], []), (2, [], [''all''])] init_world) ''/watched/a'' =
     Some \<lparr>websockets = [0, 1, 2], root = ''/watched/a'', options = default_options\<rparr>"
proof -
  let ?rest = "[(1, [''CRfile''], []), (2, [], [''all''])]"
  let ?w = "open_all example_os ''a'' ((0, [], []) # ?rest) init_world"
  have h: "''/watched/a'' = os_path_join (ARGUS_ROOT example_os) ''a'' \<and>
      path_exists example_os ''/watched/a'' \<and> observer_can_start example_os \<and>
      active_observers init_world ''/watched/a'' = None \<and> define_options [] [] \<noteq> []"
    by (simp add: example_path) (simp add: example_os_def init_world_def define_options_def default_options_def)
  note t = one_monitor_per_path[of init_world "''/watched/a''" example_os "''a''" "[]" "[]" 0 ?rest]
  from t reachable.init
  have "monitors init_world ''/watched/a'' =
      (case active_observers init_world ''/watched/a'' of None \<Rightarrow> [] | Some ob \<Rightarrow> [ob])"
    by blast
  then have 1: "monitors init_world ''/watched/a'' = []" by (simp add: init_world_def)
  from t h have "observers ?w = observers init_world @ [\<lparr>scheduled = [''/watched/a''], status = Running\<rparr>]"
    by blast
  then have 2: "observers ?w = [\<lparr>scheduled = [''/watched/a''], status = Running\<rparr>]"
    by (simp only: init_world_def world.simps append_Nil)
  from t h have "active_handlers ?w = (active_handlers init_world)(''/watched/a'' \<mapsto>
      \<lparr>websockets = 0 # map fst ?rest, root = ''/watched/a'', options = define_options [] []\<rparr>)"
    by blast
  then have "active_handlers ?w ''/watched/a'' =
      Some \<lparr>websockets = 0 # map fst ?rest, root = ''/watched/a'', options = define_options [] []\<rparr>"
    by (simp only: fun_upd_same)
  then have 3: "active_handlers ?w ''/watched/a'' =
      Some \<lparr>websockets = [0, 1, 2], root = ''/watched/a'', options = default_options\<rparr>"
    by (simp add: define_options_def)
  from 1 2 3 show ?thesis by blast
qed

text \<open>
  C2. Option resolution: with both lists empty the result is the full default set of
  eight tokens; if \<open>disable\<close> contains \<open>all\<close> the result is the set of the tokens of
  \<open>enable\<close> that are defaults; otherwise it is the defaults without those of \<open>disable\<close>,
  whatever \<open>enable\<close> is. The examples of the specification follow.
\<close>

theorem define_options_law:
  "define_options [] [] = default_options \<and>
   length default_options = 8 \<and> distinct default_options \<and>
   distinct (define_options enable disable) \<and>
   set (define_options enable disable) =
     (if ''all'' \<in> set disable then set enable \<inter> set default_options
      else set default_options - set disable) \<and>
   set (define_options [''CRfile''] [''all'']) = {''CRfile''} \<and>
   set (define_options [] [''CRfile'']) = set default_options - {''CRfile''} \<and>
   length (define_options [] [''CRfile'']) = 7 \<and>
   set (define_options [''CRfile''] [''CRdir'']) = set default_options - {''CRdir''} \<and>
   length (define_options [''CRfile''] [''CRdir'']) = 7"
proof -
  have d: "distinct default_options" "length default_options = 8"
    by (simp_all add: default_options_def)
  have 1: "define_options [] [] = default_options" by (simp add: define_options_def)
  have 2: "distinct (define_options enable disable)"
    using d(1) by (simp add: define_options_def)
  have 3: "set (define_options enable disable) =
     (if ''all'' \<in> set disable then set enable \<inter> set default_options
      else set default_options - set disable)"
    by (auto simp: define_options_def)
  have 4: "set (define_options [''CRfile''] [''all'']) = {''CRfile''}"
    by (auto simp: define_options_def default_options_def)
  have 5: "define_options [] [''CRfile''] =
      [''CRdir'', ''MDfile'', ''MDdir'', ''MVfile'', ''MVdir'', ''DLfile'', ''DLdir'']"
    by (simp add: define_options_def default_options_def)
  have 6: "define_options [''CRfile''] [''CRdir''] =
      [''CRfile'', ''MDfile'', ''MDdir'', ''MVfile'', ''MVdir'', ''DLfile'', ''DLdir'']"
    by (simp add: define_options_def default_options_def)
  have 7: "set (define_options [] [''CRfile'']) = set default_options - {''CRfile''}"
    "set (define_options [''CRfile''] [''CRdir'']) = set default_options - {''CRdir''}"
    by (auto simp: define_options_def)
  show ?thesis using d 1 2 3 4 7 by (simp add: 5 6)
qed

theorem define_options_law_witness:
  "set (define_options [''MDfile'', ''bogus''] [''all'', ''MDfile'']) = {''MDfile''} \<and>
   set (define_options [''MDfile''] [''DLdir'', ''DLfile'']) =
     {''CRfile'', ''CRdir'', ''MDfile'', ''MDdir'', ''MVfile'', ''MVdir''}"
proof -
  have a: "set (define_options [''MDfile'', ''bogus''] [''all'', ''MDfile'']) =
      set [''MDfile'', ''bogus''] \<inter> set default_options"
    using define_options_law[of "[''MDfile'', ''bogus'']" "[''all'', ''MDfile'']"] by simp
  have b: "set (define_options [''MDfile''] [''DLdir'', ''DLfile'']) =
      set default_options - set [''DLdir'', ''DLfile'']"
    using define_options_law[of "[''MDfile'']" "[''DLdir'', ''DLfile'']"] by simp
  show ?thesis unfolding a b by (auto simp: default_options_def)
qed

text \<open>
  C3. The filter is meant to forward an event exactly when its token is among the
  options. For the watched directory \<^verbatim>\<open>/watched/a(b\<close> it does not: the token of a created
  file is among the options of the handler and both subscribers are writable, but
  \<^verbatim>\<open>re.sub\<close> reads the root as a pattern, which does not compile, the method raises
  \<^verbatim>\<open>re.error\<close> and nothing is written to any subscriber. (Where the root is a pattern of
  ordinary characters and dots, \<open>event_filter_dotted\<close> shows the filter at work.)
\<close>

theorem event_filter_slip:
  "token (Created False ''/watched/a(b/x.txt'') \<in> set (options group_handler) \<and>
   list_all (writable group_attached) (websockets group_handler) \<and>
   dispatch re group_handler (Created False ''/watched/a(b/x.txt'') group_attached =
     Raised re_error group_attached \<and>
   inbox group_attached 0 = [] \<and> inbox group_attached 1 = []"
proof -
  have t: "token (Created False ''/watched/a(b/x.txt'') \<in> set (options group_handler)"
    by (simp add: group_handler_def default_options_def)
  have u: "unclosed_group (root group_handler)"
    by (simp add: group_handler_def group_unclosed)
  have "dispatch re group_handler (Created False ''/watched/a(b/x.txt'') group_attached =
     Raised re_error group_attached"
    by (rule dispatch_re_error[OF t u])
  moreover have "list_all (writable group_attached) (websockets group_handler)"
    by (simp add: group_attached_eq group_handler_def writable_def)
  moreover have "inbox group_attached 0 = [] \<and> inbox group_attached 1 = []"
    by (simp add: group_attached_eq inbox_def)
  ultimately show ?thesis using t by blast
qed

text \<open>
  C4. The path sent is meant to be the path of the event without the watch root in
  front. \<^verbatim>\<open>re.sub\<close> removes every occurrence of the root instead: for the file
  \<^verbatim>\<open>/watched/watched.log\<close> under the root \<^verbatim>\<open>/watched\<close> the subscriber is sent \<^verbatim>\<open>.log\<close>, and
  the path relative to the root is \<^verbatim>\<open>/watched.log\<close>.
\<close>

theorem relative_path_slip:
  "inbox (state_of (dispatch re example_handler (Created False ''/watched/watched.log'')
            (example_world True))) 1 =
     [Dumps [(''event_type'', JStr ''created''), (''is_directory'', JBool False),
             (''src_path'', JStr ''.log'')]] \<and>
   take (length (root example_handler)) ''/watched/watched.log'' = root example_handler \<and>
   drop (length (root example_handler)) ''/watched/watched.log'' = ''/watched.log''"
  by (simp add: on_created_def example_handler_def default_options_def sub_dotted dotted_watched
      write_msg_def write_message_def example_world_def example_socket_def inbox_def
      replace_all.simps matches_def)

text \<open>
  C5, as the code has it. \<^verbatim>\<open>write_msg\<close> writes to the subscribers in the order of the
  list and stops at the first whose write fails, with that failure raised: the
  subscribers before it have received the message, the one that failed and those
  listed after it have not. The registry and the observers are left as they were.
\<close>

theorem fan_out_stops_at_failure:
  "write_msg h m w =
     (if list_all (writable w) (websockets h)
      then Done (foldl (deliver m) w (websockets h))
      else Raised WebSocketClosedError
             (foldl (deliver m) w (takeWhile (writable w) (websockets h)))) \<and>
   (\<forall>s. inbox (state_of (write_msg h m w)) s =
        inbox w s @ replicate (count_list (takeWhile (writable w) (websockets h)) s) m) \<and>
   active_handlers (state_of (write_msg h m w)) = active_handlers w \<and>
   active_observers (state_of (write_msg h m w)) = active_observers w \<and>
   observers (state_of (write_msg h m w)) = observers w"
proof -
  let ?ds = "takeWhile (writable w) (websockets h)"
  have st: "state_of (write_msg h m w) = foldl (deliver m) w ?ds"
    by (simp add: write_msg_def write_all_eq list_all_iff takeWhile_eq_all_conv[THEN iffD2])
  have all: "list_all (writable w) ?ds"
    by (simp add: list_all_iff) (meson set_takeWhileD)
  have "inbox (state_of (write_msg h m w)) s = inbox w s @ replicate (count_list ?ds s) m" for s
    unfolding st by (rule inbox_foldl_deliver[OF all])
  moreover have "write_msg h m w =
     (if list_all (writable w) (websockets h)
      then Done (foldl (deliver m) w (websockets h))
      else Raised WebSocketClosedError (foldl (deliver m) w ?ds))"
    by (simp add: write_msg_def write_all_eq)
  moreover have "active_handlers (state_of (write_msg h m w)) = active_handlers w \<and>
     active_observers (state_of (write_msg h m w)) = active_observers w \<and>
     observers (state_of (write_msg h m w)) = observers w"
    unfolding write_msg_def by (rule same_but_sent_fields[OF write_all_same_but_sent])
  ultimately show ?thesis by blast
qed

theorem fan_out_stops_at_failure_witness:
  "inbox (state_of (write_msg (example_handler\<lparr>websockets := [1, 0, 1]\<rparr>) (Text ''m'')
            (example_world False))) 1 = [Text ''m'']"
proof -
  have "takeWhile (writable (example_world False)) (websockets (example_handler\<lparr>websockets := [1, 0, 1]\<rparr>)) = [1]"
    by (simp add: example_world_def writable_def example_socket_def)
  moreover have "inbox (example_world False) 1 = []"
    by (simp add: example_world_def inbox_def example_socket_def)
  moreover have "inbox (state_of (write_msg (example_handler\<lparr>websockets := [1, 0, 1]\<rparr>) (Text ''m'')
            (example_world False))) 1 =
        inbox (example_world False) 1 @
        replicate (count_list (takeWhile (writable (example_world False))
          (websockets (example_handler\<lparr>websockets := [1, 0, 1]\<rparr>))) 1) (Text ''m'')"
    using fan_out_stops_at_failure[of "example_handler\<lparr>websockets := [1, 0, 1]\<rparr>" "Text ''m''"
        "example_world False"] by blast
  ultimately show ?thesis by simp
qed

text \<open>
  Stated for every failure, the property does not hold. Of two subscribers, the connection of the first is lost before
  its \<^verbatim>\<open>on_close\<close> has run (the observer reports events from its own thread), that of the
  second is up: the event is of a kind both subscribed to, and the second receives
  nothing.
\<close>

theorem fan_out_counterexample:
  "\<not> writable (example_world False) 0 \<and> writable (example_world False) 1 \<and>
   1 \<in> set (websockets example_handler) \<and>
   token (Created False ''/watched/x.txt'') \<in> set (options example_handler) \<and>
   dispatch example_re example_handler (Created False ''/watched/x.txt'') (example_world False) =
     Raised WebSocketClosedError (example_world False) \<and>
   inbox (example_world False) 1 = []"
  by (simp add: on_created_def example_handler_def default_options_def sub_dotted dotted_watched
      write_msg_def write_message_def example_world_def example_socket_def inbox_def writable_def)

text \<open>
  C6. The connection of a subscribed session ends, in a state the server reaches. The
  session is listed by the handler of its path, whose monitor is the observer the
  session holds. Its socket is removed from the list; if the list is then empty the
  observer is stopped and the path is deleted from both tables, and the path has no
  monitor left; otherwise the two tables keep the path, the observer keeps running,
  and the other sockets stay listed.
\<close>

theorem unsubscribe:
  assumes "reachable w" "sockets w self = Some ss" "started_observer ss" "\<not> on_close_called ss"
  shows "\<exists>P h ob. path ss = Some P \<and> active_handlers w P = Some h \<and>
     self \<in> set (websockets h) \<and>
     set (remove1 self (websockets h)) = set (websockets h) - {self} \<and>
     active_observers w P = Some ob \<and> observer ss = Some ob \<and> monitors w P = [ob] \<and>
     on_connection_close self w =
       Done (if remove1 self (websockets h) = [] then
               w\<lparr>active_handlers := (active_handlers w)(P := None),
                 active_observers := (active_observers w)(P := None),
                 observers := (observers w)[ob := (observers w ! ob)\<lparr>status := Stopped\<rparr>],
                 sockets := (sockets w)(self \<mapsto>
                    ss\<lparr>ws_connection := False, on_close_called := True\<rparr>)\<rparr>
             else
               w\<lparr>active_handlers :=
                   (active_handlers w)(P \<mapsto> h\<lparr>websockets := remove1 self (websockets h)\<rparr>),
                 sockets := (sockets w)(self \<mapsto>
                    ss\<lparr>ws_connection := False, on_close_called := True\<rparr>)\<rparr>) \<and>
     monitors (state_of (on_connection_close self w)) P =
       (if remove1 self (websockets h) = [] then [] else [ob])"
proof -
  have ok: "registry_ok w" using assms(1) by (rule reachable_registry_ok)
  from ok assms(2-4) obtain P h where P: "path ss = Some P" "active_handlers w P = Some h"
    "self \<in> set (websockets h)"
    unfolding registry_ok_def subscribed_ok_def by blast
  from ok P(2) have d: "distinct (websockets h)"
    unfolding registry_ok_def handlers_ok_def by blast
  from ok P(2) obtain ob where ob: "active_observers w P = Some ob"
    by (auto simp: registry_ok_def same_keys_def)
  from ok P(2,3) assms(2) have "observer ss = active_observers w P"
    unfolding registry_ok_def handlers_ok_def by fastforce
  with ob have obs: "observer ss = Some ob" by simp
  from ok ob have lt: "ob < length (observers w)"
    unfolding registry_ok_def observers_ok_def by blast
  from ok have m: "monitors w P = [ob]"
    using monitors_registered[of w P] ob by (simp add: registry_ok_def)
  have rm: "remove_socket h self = h\<lparr>websockets := remove1 self (websockets h)\<rparr>"
    using P(3) by (simp add: remove_socket_def)
  have mem: "set (remove1 self (websockets h)) = set (websockets h) - {self}"
    using d by simp
  let ?gone = "(sockets w)(self \<mapsto> ss\<lparr>ws_connection := False, on_close_called := True\<rparr>)"
  let ?last = "w\<lparr>active_handlers := (active_handlers w)(P := None),
                 active_observers := (active_observers w)(P := None),
                 observers := (observers w)[ob := (observers w ! ob)\<lparr>status := Stopped\<rparr>],
                 sockets := ?gone\<rparr>"
  let ?others = "w\<lparr>active_handlers :=
                   (active_handlers w)(P \<mapsto> h\<lparr>websockets := remove1 self (websockets h)\<rparr>),
                 sockets := ?gone\<rparr>"
  have run: "on_connection_close self w =
      Done (if remove1 self (websockets h) = [] then ?last else ?others)"
  proof (cases "remove1 self (websockets h) = []")
    case True
    then have e: "websockets (remove_socket h self) = []" by (simp add: rm)
    from ob have "active_observers w P \<noteq> None" by simp
    from on_connection_close_last[OF assms(2,3) P(1,2) e obs this] lt True
    show ?thesis by simp
  next
    case False
    then have "websockets (remove_socket h self) \<noteq> []" by (simp add: rm)
    from on_connection_close_others[OF assms(2,3) P(1,2) this] False
    show ?thesis by (simp add: rm)
  qed
  have "registry_ok (state_of (on_connection_close self w))"
    by (rule on_connection_close_registry_ok[OF ok assms(2,4)])
  then have "monitors (state_of (on_connection_close self w)) P =
      (case active_observers (state_of (on_connection_close self w)) P of
         None \<Rightarrow> [] | Some ob \<Rightarrow> [ob])"
    using monitors_registered by (simp add: registry_ok_def)
  then have after: "monitors (state_of (on_connection_close self w)) P =
       (if remove1 self (websockets h) = [] then [] else [ob])"
    using ob by (simp add: run)
  from P mem ob obs m run after show ?thesis by blast
qed

theorem unsubscribe_witness:
  "on_connection_close 0 example_subscribed =
     Done \<lparr>active_handlers = Map.empty, active_observers = Map.empty,
           observers = [\<lparr>scheduled = [''/watched/a''], status = Stopped\<rparr>],
           sockets = [0 \<mapsto> \<lparr>started_observer = True, observer = Some 0,
                      path = Some ''/watched/a'', ws_connection = False,
                      on_close_called = True, sent = []\<rparr>]\<rparr>"
proof -
  let ?ss = "\<lparr>started_observer = True, observer = Some 0, path = Some ''/watched/a'',
                 ws_connection = True, on_close_called = False, sent = []\<rparr>"
  have s: "sockets example_subscribed 0 = Some ?ss" by (simp add: example_subscribed_eq)
  have "started_observer ?ss" "\<not> on_close_called ?ss" by simp_all
  from unsubscribe[OF example_subscribed_reachable s this]
  obtain P h ob where r: "path ?ss = Some P" "active_handlers example_subscribed P = Some h"
     "active_observers example_subscribed P = Some ob"
     "on_connection_close 0 example_subscribed =
       Done (if remove1 0 (websockets h) = [] then
               example_subscribed\<lparr>active_handlers := (active_handlers example_subscribed)(P := None),
                 active_observers := (active_observers example_subscribed)(P := None),
                 observers := (observers example_subscribed)
                    [ob := (observers example_subscribed ! ob)\<lparr>status := Stopped\<rparr>],
                 sockets := (sockets example_subscribed)(0 \<mapsto>
                    ?ss\<lparr>ws_connection := False, on_close_called := True\<rparr>)\<rparr>
             else
               example_subscribed\<lparr>active_handlers :=
                   (active_handlers example_subscribed)
                     (P \<mapsto> h\<lparr>websockets := remove1 0 (websockets h)\<rparr>),
                 sockets := (sockets example_subscribed)(0 \<mapsto>
                    ?ss\<lparr>ws_connection := False, on_close_called := True\<rparr>)\<rparr>)"
    by blast
  from r(1) have P: "P = ''/watched/a''" by simp
  from r(2) have h: "h = \<lparr>websockets = [0], root = ''/watched/a'', options = default_options\<rparr>"
    by (simp add: P example_subscribed_eq)
  from r(3) have ob: "ob = 0" by (simp add: P example_subscribed_eq)
  show ?thesis unfolding r(4) by (simp add: P h ob example_subscribed_eq)
qed

text \<open>
  C7. Errors of a subscription. If the path does not exist, the session is sent
  \<^verbatim>\<open>Path does not exist.\<close> and closed, and nothing else changes. If the observer cannot
  start, the session is sent \<^verbatim>\<open>Cannot start observer\<close> and closed; the observer that was
  built stays unstarted and out of the registry, whose two tables are unchanged.
\<close>

theorem subscribe_errors:
  "(P = os_path_join (ARGUS_ROOT env) p \<and> \<not> path_exists env P \<longrightarrow>
      ws_open env self (Some p) enable disable w =
        Done (w\<lparr>sockets := (sockets w)(self \<mapsto>
          \<lparr>started_observer = False, observer = None, path = Some P,
           ws_connection = False, on_close_called = False,
           sent = [Text ''Path does not exist.'']\<rparr>)\<rparr>) \<and>
      active_handlers (state_of (ws_open env self (Some p) enable disable w)) = active_handlers w \<and>
      active_observers (state_of (ws_open env self (Some p) enable disable w)) = active_observers w \<and>
      observers (state_of (ws_open env self (Some p) enable disable w)) = observers w) \<and>
   (P = os_path_join (ARGUS_ROOT env) p \<and> path_exists env P \<and> active_observers w P = None \<and>
    define_options enable disable \<noteq> [] \<and> \<not> observer_can_start env \<longrightarrow>
      ws_open env self (Some p) enable disable w =
        Done (w\<lparr>observers := observers w @ [\<lparr>scheduled = [P], status = Unstarted\<rparr>],
                sockets := (sockets w)(self \<mapsto>
          \<lparr>started_observer = False, observer = Some (length (observers w)), path = Some P,
           ws_connection = False, on_close_called = False,
           sent = [Text ''Cannot start observer'']\<rparr>)\<rparr>) \<and>
      active_handlers (state_of (ws_open env self (Some p) enable disable w)) = active_handlers w \<and>
      active_observers (state_of (ws_open env self (Some p) enable disable w)) = active_observers w)"
proof (intro conjI impI)
  assume a: "P = os_path_join (ARGUS_ROOT env) p \<and> \<not> path_exists env P"
  then have e: "ws_open env self (Some p) enable disable w =
        Done (w\<lparr>sockets := (sockets w)(self \<mapsto>
          \<lparr>started_observer = False, observer = None, path = Some P,
           ws_connection = False, on_close_called = False,
           sent = [Text ''Path does not exist.'']\<rparr>)\<rparr>)"
    using ws_open_missing[of P env p self enable disable w] by blast
  show "ws_open env self (Some p) enable disable w =
        Done (w\<lparr>sockets := (sockets w)(self \<mapsto>
          \<lparr>started_observer = False, observer = None, path = Some P,
           ws_connection = False, on_close_called = False,
           sent = [Text ''Path does not exist.'']\<rparr>)\<rparr>)" by (rule e)
  show "active_handlers (state_of (ws_open env self (Some p) enable disable w)) = active_handlers w"
    by (simp add: e)
  show "active_observers (state_of (ws_open env self (Some p) enable disable w)) = active_observers w"
    by (simp add: e)
  show "observers (state_of (ws_open env self (Some p) enable disable w)) = observers w"
    by (simp add: e)
next
  assume a: "P = os_path_join (ARGUS_ROOT env) p \<and> path_exists env P \<and> active_observers w P = None \<and>
    define_options enable disable \<noteq> [] \<and> \<not> observer_can_start env"
  then have e: "ws_open env self (Some p) enable disable w =
        Done (w\<lparr>observers := observers w @ [\<lparr>scheduled = [P], status = Unstarted\<rparr>],
                sockets := (sockets w)(self \<mapsto>
          \<lparr>started_observer = False, observer = Some (length (observers w)), path = Some P,
           ws_connection = False, on_close_called = False,
           sent = [Text ''Cannot start observer'']\<rparr>)\<rparr>)"
    using ws_open_OSError[of P env p w enable disable self] by blast
  show "ws_open env self (Some p) enable disable w =
        Done (w\<lparr>observers := observers w @ [\<lparr>scheduled = [P], status = Unstarted\<rparr>],
                sockets := (sockets w)(self \<mapsto>
          \<lparr>started_observer = False, observer = Some (length (observers w)), path = Some P,
           ws_connection = False, on_close_called = False,
           sent = [Text ''Cannot start observer'']\<rparr>)\<rparr>)" by (rule e)
  show "active_handlers (state_of (ws_open env self (Some p) enable disable w)) = active_handlers w"
    by (simp add: e)
  show "active_observers (state_of (ws_open env self (Some p) enable disable w)) = active_observers w"
    by (simp add: e)
qed

theorem subscribe_errors_witness:
  "inbox (state_of (ws_open example_os 5 (Some ''missing'') [] [] example_subscribed)) 5 =
     [Text ''Path does not exist.''] \<and>
   \<not> writable (state_of (ws_open example_os 5 (Some ''missing'') [] [] example_subscribed)) 5 \<and>
   active_handlers (state_of (ws_open example_os 5 (Some ''missing'') [] [] example_subscribed)) =
     active_handlers example_subscribed \<and>
   inbox (state_of (ws_open (example_os\<lparr>observer_can_start := False\<rparr>) 5 (Some ''a'') [] []
            init_world)) 5 = [Text ''Cannot start observer''] \<and>
   \<not> writable (state_of (ws_open (example_os\<lparr>observer_can_start := False\<rparr>) 5 (Some ''a'') [] []
            init_world)) 5 \<and>
   active_observers (state_of (ws_open (example_os\<lparr>observer_can_start := False\<rparr>) 5 (Some ''a'') [] []
            init_world)) = Map.empty"
proof -
  have 1: "''/watched/missing'' = os_path_join (ARGUS_ROOT example_os) ''missing'' \<and>
      \<not> path_exists example_os ''/watched/missing''"
    by (simp add: os_path_join_def example_os_def)
  let ?os = "example_os\<lparr>observer_can_start := False\<rparr>"
  have 2: "''/watched/a'' = os_path_join (ARGUS_ROOT ?os) ''a'' \<and> path_exists ?os ''/watched/a'' \<and>
      active_observers init_world ''/watched/a'' = None \<and> define_options [] [] \<noteq> [] \<and>
      \<not> observer_can_start ?os"
    by (simp add: os_path_join_def example_os_def init_world_def define_options_def default_options_def)
  note t1 = subscribe_errors[of "''/watched/missing''" example_os "''missing''" 5 "[]" "[]" example_subscribed]
  note t2 = subscribe_errors[of "''/watched/a''" ?os "''a''" 5 "[]" "[]" init_world]
  from t1 1 have a: "ws_open example_os 5 (Some ''missing'') [] [] example_subscribed =
        Done (example_subscribed\<lparr>sockets := (sockets example_subscribed)(5 \<mapsto>
          \<lparr>started_observer = False, observer = None, path = Some ''/watched/missing'',
           ws_connection = False, on_close_called = False,
           sent = [Text ''Path does not exist.'']\<rparr>)\<rparr>)" by blast
  from t2 2 have b: "ws_open ?os 5 (Some ''a'') [] [] init_world =
        Done (init_world\<lparr>observers := observers init_world @ [\<lparr>scheduled = [''/watched/a''], status = Unstarted\<rparr>],
                sockets := (sockets init_world)(5 \<mapsto>
          \<lparr>started_observer = False, observer = Some (length (observers init_world)),
           path = Some ''/watched/a'',
           ws_connection = False, on_close_called = False,
           sent = [Text ''Cannot start observer'']\<rparr>)\<rparr>)" by blast
  show ?thesis unfolding a b by (simp add: inbox_def writable_def init_world_def)
qed

text \<open>
  C8. A subscription to a path that is not watched, with options that resolve to the
  empty list: the session only records its path. No handler or observer is built, the
  registry is unchanged, nothing is sent and the connection stays open.
\<close>

theorem empty_options_no_op:
  "P = os_path_join (ARGUS_ROOT env) p \<and> path_exists env P \<and> active_observers w P = None \<and>
   define_options enable disable = [] \<longrightarrow>
     ws_open env self (Some p) enable disable w =
       Done (w\<lparr>sockets := (sockets w)(self \<mapsto>
          \<lparr>started_observer = False, observer = None, path = Some P,
           ws_connection = True, on_close_called = False, sent = []\<rparr>)\<rparr>)"
  using ws_open_no_options[of P env p w enable disable self] by blast

theorem empty_options_no_op_witness:
  "define_options [''bogus''] [''all''] = [] \<and>
   ws_open example_os 7 (Some ''a'') [''bogus''] [''all''] init_world =
     Done (init_world\<lparr>sockets := [7 \<mapsto>
          \<lparr>started_observer = False, observer = None, path = Some ''/watched/a'',
           ws_connection = True, on_close_called = False, sent = []\<rparr>]\<rparr>)"
proof -
  have d: "define_options [''bogus''] [''all''] = []"
    by (simp add: define_options_def default_options_def)
  have "''/watched/a'' = os_path_join (ARGUS_ROOT example_os) ''a'' \<and>
      path_exists example_os ''/watched/a'' \<and> active_observers init_world ''/watched/a'' = None \<and>
      define_options [''bogus''] [''all''] = []"
    by (simp add: d) (simp add: os_path_join_def example_os_def init_world_def)
  with empty_options_no_op[of "''/watched/a''" example_os "''a''" init_world "[''bogus'']" "[''all'']" 7]
  have "ws_open example_os 7 (Some ''a'') [''bogus''] [''all''] init_world =
       Done (init_world\<lparr>sockets := (sockets init_world)(7 \<mapsto>
          \<lparr>started_observer = False, observer = None, path = Some ''/watched/a'',
           ws_connection = True, on_close_called = False, sent = []\<rparr>)\<rparr>)" by blast
  then show ?thesis using d by (simp add: init_world_def)
qed


text \<open>
  C10. \<^verbatim>\<open>initiation_handler\<close> and \<^verbatim>\<open>on_close\<close> keep the key sets of \<^verbatim>\<open>active_handlers\<close>
  and \<^verbatim>\<open>active_observers\<close> equal, also when they raise; so the two key sets are equal in
  every state the server reaches.
\<close>

theorem same_key_set:
  "(dom (active_handlers w) = dom (active_observers w) \<longrightarrow>
      dom (active_handlers (state_of (initiation_handler env self kw_path enable disable w))) =
      dom (active_observers (state_of (initiation_handler env self kw_path enable disable w))) \<and>
      dom (active_handlers (state_of (on_close self w))) =
      dom (active_observers (state_of (on_close self w)))) \<and>
   (reachable w \<longrightarrow> dom (active_handlers w) = dom (active_observers w))"
proof (intro conjI impI)
  assume "reachable w"
  then show "dom (active_handlers w) = dom (active_observers w)"
    using reachable_registry_ok by (simp add: registry_ok_def same_keys_def)
qed (simp_all add: initiation_handler_same_keys on_close_same_keys)

theorem same_key_set_witness:
  "dom (active_handlers (state_of (on_close 0 example_subscribed))) =
   dom (active_observers (state_of (on_close 0 example_subscribed))) \<and>
   dom (active_handlers (state_of
      (initiation_handler example_os 0 (Some ''a'') [] [''all''] example_subscribed))) =
   dom (active_observers (state_of
      (initiation_handler example_os 0 (Some ''a'') [] [''all''] example_subscribed)))"
proof -
  have "dom (active_handlers example_subscribed) = dom (active_observers example_subscribed)"
    by (simp add: example_subscribed_eq)
  with same_key_set[of example_subscribed example_os 0 "Some ''a''" "[]" "[''all'']"]
  show ?thesis by blast
qed

end
